theory Spec2Isabelle
  imports Main
begin

section \<open>Values, callbacks and the observable trace\<close>

text \<open>
  The runtime is single-threaded JavaScript. Values are the JavaScript values the
  sources compare with \<open>===\<close> and test for truthiness; objects are compared by
  reference, so an object is its address. \<open>Num n\<close> is the number with the integer
  value \<open>n\<close>. JavaScript numbers are doubles: only the integers up to \<open>2^53\<close> in
  magnitude are numbers, and fractions, infinities and \<open>NaN\<close> (the one value that is
  not \<open>===\<close> to itself) have no counterpart here. The sources themselves compute no
  number but the positions of the items of a list; every other number is handed in by
  a caller and only compared and stored.
\<close>

datatype val = Undefined | Null | Bool bool | Num int | Str string | Obj nat

text \<open>\<open>!v\<close> of JavaScript.\<close>

fun falsy :: "val \<Rightarrow> bool" where
  "falsy Undefined = True"
| "falsy Null = True"
| "falsy (Bool b) = (\<not> b)"
| "falsy (Num n) = (n = 0)"
| "falsy (Str s) = (s = [])"
| "falsy (Obj a) = False"

text \<open>
  Callbacks handed to the runtime by its users (mount and cleanup callbacks,
  subscribers, producers, disposers, render functions) are opaque closures. A closure
  is identified by a number, and calling it is recorded in a trace of events, in the
  order of the calls. The trace also records the signals a fragment emits and the calls
  of \<open>dispose\<close> on scopes.
\<close>

type_synonym sid = nat    \<comment> \<open>address of a \<open>Scope\<close>\<close>
type_synonym cbid = nat   \<comment> \<open>identity of a callback closure\<close>
type_synonym ctxid = nat  \<comment> \<open>identity of a context object (the key of \<open>Scope.contexts\<close>)\<close>
type_synonym sigid = nat  \<comment> \<open>address of the closure state of a \<open>createState\<close> signal\<close>

text \<open>A rendered output: a widget, or a \<open>Fragment\<close> (which a fragment refuses as a child).\<close>

datatype elem = Widget nat | Fragment nat

datatype event =
    MountRan cbid                \<comment> \<open>\<open>Scope.run\<close> called a callback of \<open>mounts\<close>\<close>
  | CleanupRan cbid              \<comment> \<open>\<open>Scope.dispose\<close> called a callback of \<open>cleanups\<close>\<close>
  | ScopeDisposed sid            \<comment> \<open>\<open>dispose()\<close> was called on this scope\<close>
  | Notified cbid                \<comment> \<open>a source called a subscriber\<close>
  | ConsoleError string          \<comment> \<open>\<open>console.error\<close>\<close>
  | ConsoleWarn val              \<comment> \<open>\<open>console.warn\<close> of a duplicate key\<close>
  | ProducerCalled nat           \<comment> \<open>\<open>producer(set)\<close> ran and returned this disposer\<close>
  | DisposerCalled nat           \<comment> \<open>the disposer a producer returned was called\<close>
  | DepGet nat                   \<comment> \<open>\<open>deps[i].get()\<close>\<close>
  | TransformCalled "val list"   \<comment> \<open>\<open>transform(...args)\<close>\<close>
  | Connected nat nat            \<comment> \<open>\<open>connect\<close> of handler tuple \<open>i\<close> returned this id\<close>
  | Disconnected nat nat         \<comment> \<open>\<open>disconnect\<close> of handler tuple \<open>i\<close> with this id\<close>
  | RenderCalled val sigid sid   \<comment> \<open>\<open>mkChild(item, index)\<close> under this scope\<close>
  | WithRendered val sid         \<comment> \<open>\<open>mkChild(v)\<close> of \<open>With\<close> under this scope\<close>
  | UserCleanup elem val val     \<comment> \<open>\<open>cleanup(child, item, index.get())\<close>\<close>
  | UserCleanup1 elem            \<comment> \<open>\<open>cleanup(child)\<close> of \<open>With\<close>\<close>
  | DefaultCleanup elem          \<comment> \<open>\<open>env.defaultCleanup(child)\<close>\<close>
  | ChildAdded elem nat          \<comment> \<open>the fragment emitted \<open>child-added\<close>\<close>
  | ChildRemoved elem int        \<comment> \<open>the fragment emitted \<open>child-removed\<close>\<close>
  | SourceSubscribed cbid        \<comment> \<open>\<open>subscribe(cb)\<close> on the source accessor of a reconciler\<close>
  | SourceUnsubscribed cbid      \<comment> \<open>the function that \<open>subscribe(cb)\<close> returned was called\<close>

datatype error =
    NoScope           \<comment> \<open>"cannot get scope: out of tracking context"\<close>
  | NestedFragment    \<comment> \<open>"nesting Fragments are not yet supported"\<close>
  | NotAFunction      \<comment> \<open>\<open>TypeError\<close>: a call of \<open>undefined\<close>, or of a method of it\<close>

text \<open>A JavaScript \<open>Set\<close> keeps insertion order and ignores a second \<open>add\<close>.\<close>

definition set_add :: "'a \<Rightarrow> 'a list \<Rightarrow> 'a list" where
  "set_add x xs = (if x \<in> set xs then xs else xs @ [x])"

definition set_delete :: "'a \<Rightarrow> 'a list \<Rightarrow> 'a list" where
  "set_delete x xs = filter (\<lambda>y. y \<noteq> x) xs"

text \<open>\<open>Map.get\<close>: a missing key reads as \<open>undefined\<close>.\<close>

definition map_get :: "('k \<rightharpoonup> val) \<Rightarrow> 'k \<Rightarrow> val" where
  "map_get m k = (case m k of None \<Rightarrow> Undefined | Some v \<Rightarrow> v)"

section \<open>Scopes (scope.ts)\<close>

record scope =
  parent :: "sid option"
  contexts :: "ctxid \<rightharpoonup> val"
  cleanups :: "cbid list"
  mounts :: "cbid list"
  mounted :: bool

text \<open>\<open>createState\<close>: the closure variables \<open>currentValue\<close> and \<open>subscribers\<close>.\<close>

record state_src =
  currentValue :: val
  subscribers :: "cbid list"

text \<open>
  The heap: the scopes and the stateful signals allocated so far, the static
  \<open>Scope.current\<close>, and the trace. Addresses are handed out in increasing order.
\<close>

record world =
  scopes :: "sid \<Rightarrow> scope"
  nscopes :: nat
  current :: "sid option"
  sigs :: "sigid \<Rightarrow> state_src"
  nsigs :: nat
  log :: "event list"

definition upd_scope :: "sid \<Rightarrow> (scope \<Rightarrow> scope) \<Rightarrow> world \<Rightarrow> world" where
  "upd_scope s f w = w\<lparr>scopes := (scopes w)(s := f (scopes w s))\<rparr>"

definition emit :: "event list \<Rightarrow> world \<Rightarrow> world" where
  "emit es w = w\<lparr>log := log w @ es\<rparr>"

text \<open>\<open>new Scope(parent)\<close>.\<close>

definition new_Scope :: "sid option \<Rightarrow> world \<Rightarrow> sid \<times> world" where
  "new_Scope p w =
     (nscopes w,
      w\<lparr>scopes := (scopes w)(nscopes w :=
           \<lparr>parent = p, contexts = Map.empty, cleanups = [], mounts = [], mounted = False\<rparr>),
        nscopes := Suc (nscopes w)\<rparr>)"

text \<open>
  Reading \<open>this.parent\<close>. A scope's parent is set by the constructor only, to a scope
  that exists already, so it has a smaller address; the read follows such links only.
  This is what makes the walks up the parent chain (\<open>onMount\<close>, \<open>use\<close>) finite.
\<close>

definition parent_of :: "world \<Rightarrow> sid \<Rightarrow> sid option" where
  "parent_of w s =
     (case parent (scopes w s) of None \<Rightarrow> None | Some p \<Rightarrow> if p < s then Some p else None)"

text \<open>\<open>Scope.onCleanup\<close>.\<close>

definition Scope_onCleanup :: "sid \<Rightarrow> cbid \<Rightarrow> world \<Rightarrow> world" where
  "Scope_onCleanup s cb w = upd_scope s (\<lambda>sc. sc\<lparr>cleanups := set_add cb (cleanups sc)\<rparr>) w"

text \<open>\<open>this.mounts.add(callback)\<close>\<close>

definition add_mount :: "sid \<Rightarrow> cbid \<Rightarrow> world \<Rightarrow> world" where
  "add_mount s cb w = upd_scope s (\<lambda>sc. sc\<lparr>mounts := set_add cb (mounts sc)\<rparr>) w"

text \<open>\<open>Scope.onMount\<close>.\<close>

function Scope_onMount :: "sid \<Rightarrow> cbid \<Rightarrow> world \<Rightarrow> world" where
  "Scope_onMount s cb w =
     (case parent_of w s of
        Some p \<Rightarrow> if \<not> mounted (scopes w p) then Scope_onMount p cb w else add_mount s cb w
      | None \<Rightarrow> add_mount s cb w)"
  by pat_completeness auto
termination
  by (relation "measure (\<lambda>(s, cb, w). s)")
     (auto simp: parent_of_def split: option.splits if_splits)

declare Scope_onMount.simps [simp del]

text \<open>
  \<open>Scope.run\<close>. The body \<open>fn\<close> is any computation on the heap; its result \<open>'r\<close> is
  the value it returns or the exception it throws, and the \<open>finally\<close> block runs in
  both cases before the result is passed on.
\<close>

definition fire_mounts :: "sid \<Rightarrow> world \<Rightarrow> world" where
  "fire_mounts s w =
     upd_scope s (\<lambda>sc. sc\<lparr>mounts := [], mounted := True\<rparr>)
       (emit (map MountRan (mounts (scopes w s))) w)"

definition Scope_run :: "sid \<Rightarrow> (world \<Rightarrow> 'r \<times> world) \<Rightarrow> world \<Rightarrow> 'r \<times> world" where
  "Scope_run s fn w =
     (let prev = current w;
          (r, w1) = fn (w\<lparr>current := Some s\<rparr>);
          w2 = fire_mounts s w1
      in (r, w2\<lparr>current := prev\<rparr>))"

text \<open>\<open>Scope.dispose\<close>.\<close>

definition Scope_dispose :: "sid \<Rightarrow> world \<Rightarrow> world" where
  "Scope_dispose s w =
     upd_scope s (\<lambda>sc. sc\<lparr>cleanups := [], contexts := Map.empty, parent := None\<rparr>)
       (emit (ScopeDisposed s # map CleanupRan (cleanups (scopes w s))) w)"

text \<open>The module functions \<open>getScope\<close>, \<open>onCleanup\<close>, \<open>onMount\<close>, \<open>createRoot\<close>.\<close>

definition getScope :: "world \<Rightarrow> error + sid" where
  "getScope w = (case current w of None \<Rightarrow> Inl NoScope | Some s \<Rightarrow> Inr s)"

definition onCleanup :: "cbid \<Rightarrow> world \<Rightarrow> world" where
  "onCleanup cb w =
     (case current w of
        None \<Rightarrow> emit [ConsoleError ''out of tracking context: will not be able to cleanup''] w
      | Some s \<Rightarrow> Scope_onCleanup s cb w)"

definition onMount :: "cbid \<Rightarrow> world \<Rightarrow> world" where
  "onMount cb w =
     (case current w of
        None \<Rightarrow> emit [ConsoleError ''cannot attach onMount: out of tracking context''] w
      | Some s \<Rightarrow> Scope_onMount s cb w)"

definition createRoot :: "(sid \<Rightarrow> world \<Rightarrow> 'r \<times> world) \<Rightarrow> world \<Rightarrow> 'r \<times> world" where
  "createRoot fn w = (let (s, w1) = new_Scope None w in Scope_run s (fn s) w1)"

subsection \<open>Contexts\<close>

text \<open>\<open>createContext(defaultValue).provide\<close>; \<open>c\<close> is the context object \<open>ctx\<close>.\<close>

definition provide :: "ctxid \<Rightarrow> val \<Rightarrow> (world \<Rightarrow> 'r \<times> world) \<Rightarrow> world \<Rightarrow> (error + 'r) \<times> world" where
  "provide c v fn w =
     (case getScope w of
        Inl e \<Rightarrow> (Inl e, w)
      | Inr s \<Rightarrow>
          (let w1 = upd_scope s (\<lambda>sc. sc\<lparr>contexts := (contexts sc)(c \<mapsto> v)\<rparr>) w;
               (r, w2) = Scope_run s fn w1
           in (Inr r, w2)))"

text \<open>The \<open>while (scope)\<close> loop of \<open>use\<close>, from the scope it has reached.\<close>

function use_from :: "ctxid \<Rightarrow> val \<Rightarrow> sid option \<Rightarrow> world \<Rightarrow> val" where
  "use_from c dflt None w = dflt"
| "use_from c dflt (Some s) w =
     (let v = map_get (contexts (scopes w s)) c
      in if v \<noteq> Undefined then v else use_from c dflt (parent_of w s) w)"
  by pat_completeness auto
termination
  by (relation "measure (\<lambda>(c, d, so, w). case so of None \<Rightarrow> 0 | Some s \<Rightarrow> Suc s)")
     (auto simp: parent_of_def split: option.splits if_splits)

definition use :: "ctxid \<Rightarrow> val \<Rightarrow> world \<Rightarrow> val" where
  "use c dflt w = use_from c dflt (current w) w"

text \<open>
  The scopes \<open>use\<close> visits, in order: the scope it starts from, then its ancestors.
\<close>

function scope_chain :: "world \<Rightarrow> sid option \<Rightarrow> sid list" where
  "scope_chain w None = []"
| "scope_chain w (Some s) = s # scope_chain w (parent_of w s)"
  by pat_completeness auto
termination
  by (relation "measure (\<lambda>(w, so). case so of None \<Rightarrow> 0 | Some s \<Rightarrow> Suc s)")
     (auto simp: parent_of_def split: option.splits if_splits)

text \<open>Concrete heaps for the examples.\<close>

definition empty_scope :: scope where
  "empty_scope = \<lparr>parent = None, contexts = Map.empty, cleanups = [], mounts = [], mounted = False\<rparr>"

definition empty_world :: world where
  "empty_world =
     \<lparr>scopes = (\<lambda>_. empty_scope), nscopes = 0, current = None,
      sigs = (\<lambda>_. \<lparr>currentValue = Undefined, subscribers = []\<rparr>), nsigs = 0, log = []\<rparr>"

definition ctx_world :: world where
  "ctx_world =
     empty_world\<lparr>scopes := (\<lambda>_. empty_scope)
        (0 := empty_scope\<lparr>contexts := [0 \<mapsto> Str ''outer'']\<rparr>,
         1 := empty_scope\<lparr>parent := Some 0, contexts := [0 \<mapsto> Undefined]\<rparr>,
         2 := empty_scope\<lparr>contexts := [0 \<mapsto> Undefined]\<rparr>),
       nscopes := 3, current := Some 1\<rparr>"

subsection \<open>Where \<open>onMount\<close> puts a callback\<close>

text \<open>
  \<open>delegates w s t\<close>: from scope \<open>s\<close>, going up through parents that are not yet
  mounted leads to \<open>t\<close>. \<open>outermost w t\<close>: the walk stops at \<open>t\<close>, which has no
  parent or a mounted one.
\<close>

inductive delegates :: "world \<Rightarrow> sid \<Rightarrow> sid \<Rightarrow> bool" for w :: world where
  here: "delegates w s s"
| up: "parent_of w s = Some p \<Longrightarrow> \<not> mounted (scopes w p) \<Longrightarrow> delegates w p t \<Longrightarrow> delegates w s t"

definition outermost :: "world \<Rightarrow> sid \<Rightarrow> bool" where
  "outermost w t = (case parent_of w t of None \<Rightarrow> True | Some p \<Rightarrow> mounted (scopes w p))"

text \<open>A body for \<open>Scope.run\<close> that calls \<open>onMount(cb)\<close>, and one that does nothing.\<close>

definition register_mount :: "cbid \<Rightarrow> world \<Rightarrow> unit \<times> world" where
  "register_mount cb w = ((), onMount cb w)"

definition skip :: "world \<Rightarrow> unit \<times> world" where
  "skip w = ((), w)"

text \<open>\<open>new Scope(Scope.current).run(body)\<close>: what a reconciler does for a child.\<close>

definition in_child :: "(world \<Rightarrow> 'r \<times> world) \<Rightarrow> world \<Rightarrow> 'r \<times> world" where
  "in_child body w = (let (s, w1) = new_Scope (current w) w in Scope_run s body w1)"

text \<open>More concrete heaps for the examples.\<close>

definition nest_world :: world where
  "nest_world =
     empty_world\<lparr>scopes := (\<lambda>_. empty_scope)
        (0 := empty_scope\<lparr>mounts := [1]\<rparr>,
         1 := empty_scope\<lparr>parent := Some 0\<rparr>,
         2 := empty_scope\<lparr>parent := Some 1, mounts := [5]\<rparr>),
       nscopes := 3, current := Some 1\<rparr>"

definition prov_world :: world where
  "prov_world =
     empty_world\<lparr>scopes := (\<lambda>_. empty_scope)(0 := empty_scope\<lparr>mounts := [3]\<rparr>),
       nscopes := 1, current := Some 0\<rparr>"

text \<open>
  Two bodies for a root: \<open>onMount(3)\<close>, then a child built under a new scope that
  calls \<open>onMount(7)\<close>; and the same with a \<open>provide\<close> between the two. And the heap
  in which \<open>createRoot\<close>, called on the empty heap, starts the body: the new scope 0
  is current and its \<open>run\<close> has not returned.
\<close>

definition plain_body :: "world \<Rightarrow> unit \<times> world" where
  "plain_body w = in_child (register_mount 7) (onMount 3 w)"

definition providing_body :: "world \<Rightarrow> unit \<times> world" where
  "providing_body w =
     in_child (register_mount 7) (snd (provide 0 (Num 1) skip (onMount 3 w)))"

definition inside_root :: world where
  "inside_root = (snd (new_Scope None empty_world))\<lparr>current := Some 0\<rparr>"

section \<open>Signal sources (state.ts)\<close>

text \<open>
  The argument of a setter: a value, or a function of the previous value
  (\<open>typeof v === "function" ? v(currentValue) : v\<close>).
\<close>

datatype setter_arg = SetValue val | SetWith "val \<Rightarrow> val"

fun resolve :: "setter_arg \<Rightarrow> val \<Rightarrow> val" where
  "resolve (SetValue v) cur = v"
| "resolve (SetWith f) cur = f cur"

subsection \<open>\<open>createState\<close>\<close>

text \<open>
  \<open>subscribe\<close>, the function it returns (which deletes the callback it captured),
  and \<open>set\<close>, on the closure state of one signal; each gives the new state and the
  callbacks it called.
\<close>

definition st_subscribe :: "cbid \<Rightarrow> state_src \<Rightarrow> state_src \<times> event list" where
  "st_subscribe callback st = (st\<lparr>subscribers := set_add callback (subscribers st)\<rparr>, [])"

definition st_unsubscribe :: "cbid \<Rightarrow> state_src \<Rightarrow> state_src \<times> event list" where
  "st_unsubscribe callback st = (st\<lparr>subscribers := set_delete callback (subscribers st)\<rparr>, [])"

definition st_set :: "setter_arg \<Rightarrow> state_src \<Rightarrow> state_src \<times> event list" where
  "st_set newValue st =
     (let v = resolve newValue (currentValue st)
      in if currentValue st \<noteq> v
         then (st\<lparr>currentValue := v\<rparr>, map Notified (subscribers st))
         else (st, []))"

text \<open>The same on the heap, for the signals the collection reconciler allocates.\<close>

definition createState :: "val \<Rightarrow> world \<Rightarrow> sigid \<times> world" where
  "createState init w =
     (nsigs w,
      w\<lparr>sigs := (sigs w)(nsigs w := \<lparr>currentValue = init, subscribers = []\<rparr>),
        nsigs := Suc (nsigs w)\<rparr>)"

definition sig_get :: "sigid \<Rightarrow> world \<Rightarrow> val" where
  "sig_get g w = currentValue (sigs w g)"

definition sig_set :: "sigid \<Rightarrow> setter_arg \<Rightarrow> world \<Rightarrow> world" where
  "sig_set g a w =
     (let (st, es) = st_set a (sigs w g) in emit es (w\<lparr>sigs := (sigs w)(g := st)\<rparr>))"

definition sig_subscribe :: "sigid \<Rightarrow> cbid \<Rightarrow> world \<Rightarrow> world" where
  "sig_subscribe g cb w =
     (let (st, es) = st_subscribe cb (sigs w g) in emit es (w\<lparr>sigs := (sigs w)(g := st)\<rparr>))"

subsection \<open>\<open>createExternal\<close>\<close>

text \<open>
  The closure variables \<open>currentValue\<close>, \<open>dispose\<close> (not assigned before the first
  call of the producer) and \<open>subscribers\<close>.
\<close>

record external =
  ext_currentValue :: val
  ext_dispose :: "nat option"
  ext_subscribers :: "cbid list"

text \<open>
  One call of the opaque \<open>producer\<close>: the arguments with which it calls the setter
  before it returns, and the disposer it returns.
\<close>

record producer =
  pushes :: "setter_arg list"
  returns :: nat

definition createExternal :: "val \<Rightarrow> external" where
  "createExternal init = \<lparr>ext_currentValue = init, ext_dispose = None, ext_subscribers = []\<rparr>"

text \<open>The setter handed to the producer.\<close>

definition ext_set :: "setter_arg \<Rightarrow> external \<Rightarrow> external \<times> event list" where
  "ext_set v x =
     (let newValue = resolve v (ext_currentValue x)
      in if newValue \<noteq> ext_currentValue x
         then (x\<lparr>ext_currentValue := newValue\<rparr>, map Notified (ext_subscribers x))
         else (x, []))"

fun ext_sets :: "setter_arg list \<Rightarrow> external \<Rightarrow> external \<times> event list" where
  "ext_sets [] x = (x, [])"
| "ext_sets (v # vs) x =
     (let (x1, es1) = ext_set v x; (x2, es2) = ext_sets vs x1 in (x2, es1 @ es2))"

definition ext_subscribe :: "producer \<Rightarrow> cbid \<Rightarrow> external \<Rightarrow> external \<times> event list" where
  "ext_subscribe pr callback x =
     (let (x1, es) =
            (if ext_subscribers x = []
             then (let (x', es') = ext_sets (pushes pr) x
                   in (x'\<lparr>ext_dispose := Some (returns pr)\<rparr>, ProducerCalled (returns pr) # es'))
             else (x, []))
      in (x1\<lparr>ext_subscribers := set_add callback (ext_subscribers x1)\<rparr>, es))"

text \<open>
  The function \<open>subscribe\<close> returns; it captures \<open>callback\<close>. Calling \<open>dispose\<close>
  before it was ever assigned would be a \<open>TypeError\<close>.
\<close>

definition ext_unsubscribe :: "cbid \<Rightarrow> external \<Rightarrow> error + external \<times> event list" where
  "ext_unsubscribe callback x =
     (let x1 = x\<lparr>ext_subscribers := set_delete callback (ext_subscribers x)\<rparr>
      in if ext_subscribers x1 = []
         then (case ext_dispose x1 of
                 None \<Rightarrow> Inl NotAFunction
               | Some d \<Rightarrow> Inr (x1, [DisposerCalled d]))
         else Inr (x1, []))"

text \<open>
  A history of calls on one external source: \<open>subscribe(cb)\<close> (with what the
  producer would do if this call starts it), a call of a function returned by
  \<open>subscribe(cb)\<close>, and a later call of the setter by the producer's machinery.
\<close>

datatype ext_op = Subscribe producer cbid | Unsubscribe cbid | Push setter_arg

fun ext_step :: "ext_op \<Rightarrow> external \<Rightarrow> error + external \<times> event list" where
  "ext_step (Subscribe pr cb) x = Inr (ext_subscribe pr cb x)"
| "ext_step (Unsubscribe cb) x = ext_unsubscribe cb x"
| "ext_step (Push v) x = Inr (ext_set v x)"

text \<open>
  The steps of a history from a state: for each call the state before, the trace
  before, the call, the events of the call and the state after. An exception ends it.
\<close>

type_synonym ext_stepinfo = "external \<times> event list \<times> ext_op \<times> event list \<times> external"

fun ext_steps :: "ext_op list \<Rightarrow> external \<Rightarrow> event list \<Rightarrow> ext_stepinfo list" where
  "ext_steps [] x tr = []"
| "ext_steps (op # ops) x tr =
     (case ext_step op x of
        Inl e \<Rightarrow> []
      | Inr (x', es) \<Rightarrow> (x, tr, op, es, x') # ext_steps ops x' (tr @ es))"

text \<open>
  Every unsubscribe function that is called was returned by an earlier \<open>subscribe\<close>
  and is called at most once: \<open>pending\<close> holds the callbacks of the functions
  returned and not yet called.
\<close>

fun once_each :: "cbid list \<Rightarrow> ext_op list \<Rightarrow> bool" where
  "once_each pending [] = True"
| "once_each pending (Subscribe pr cb # ops) = once_each (cb # pending) ops"
| "once_each pending (Unsubscribe cb # ops) = (cb \<in> set pending \<and> once_each (remove1 cb pending) ops)"
| "once_each pending (Push v # ops) = once_each pending ops"

fun is_producer :: "event \<Rightarrow> bool" where
  "is_producer (ProducerCalled d) = True"
| "is_producer _ = False"

fun is_disposer :: "event \<Rightarrow> bool" where
  "is_disposer (DisposerCalled d) = True"
| "is_disposer _ = False"

fun is_notified :: "event \<Rightarrow> bool" where
  "is_notified (Notified cb) = True"
| "is_notified _ = False"

fun is_subscribe :: "ext_op \<Rightarrow> bool" where
  "is_subscribe (Subscribe pr cb) = True"
| "is_subscribe _ = False"

subsection \<open>\<open>createComputed\<close>\<close>

text \<open>
  A JavaScript array read and written by index: a read past the end or of a hole is
  \<open>undefined\<close>, a write past the end extends the array with holes.
\<close>

definition arr_get :: "val list \<Rightarrow> nat \<Rightarrow> val" where
  "arr_get xs i = (if i < length xs then xs ! i else Undefined)"

definition arr_set :: "val list \<Rightarrow> nat \<Rightarrow> val \<Rightarrow> val list" where
  "arr_set xs i v =
     (if i < length xs then xs[i := v] else xs @ replicate (i - length xs) Undefined @ [v])"

text \<open>
  A dependency is an accessor of this library: it has a current value, read by
  \<open>get()\<close>, and a set of subscribers. Its subscribers are the listeners this computed
  source attaches (a fresh closure for each slot at each activation) and the callbacks
  of other consumers.
\<close>

datatype listener = Own nat nat | Other cbid

record dep =
  dep_value :: val
  dep_listeners :: "listener list"

text \<open>
  The closure variables \<open>dispose\<close> (not assigned before the first subscription; it
  holds the functions that remove the listeners), \<open>subscribers\<close> and \<open>cache\<close>, with
  the dependencies and the number of activations so far, which names the listeners.
\<close>

record computed =
  deps :: "dep list"
  cmp_dispose :: "(nat \<times> nat) list option"
  cmp_subscribers :: "cbid list"
  cache :: "val list"
  activations :: nat

definition createComputed :: "dep list \<Rightarrow> computed" where
  "createComputed ds =
     \<lparr>deps = ds, cmp_dispose = None, cmp_subscribers = [],
      cache = replicate (length ds) Undefined, activations = 0\<rparr>"

definition attach :: "nat \<Rightarrow> dep list \<Rightarrow> dep list" where
  "attach g ds =
     map (\<lambda>(i, d). d\<lparr>dep_listeners := set_add (Own g i) (dep_listeners d)\<rparr>) (enumerate 0 ds)"

definition cmp_subscribe :: "cbid \<Rightarrow> computed \<Rightarrow> computed \<times> event list" where
  "cmp_subscribe callback c =
     (let c1 = (if cmp_subscribers c = []
                then c\<lparr>deps := attach (activations c) (deps c),
                       cmp_dispose := Some (map (\<lambda>i. (activations c, i)) [0..<length (deps c)]),
                       activations := Suc (activations c)\<rparr>
                else c)
      in (c1\<lparr>cmp_subscribers := set_add callback (cmp_subscribers c1)\<rparr>, []))"

text \<open>\<open>dispose.map((cb) => cb())\<close>: each function removes its listener from its dependency.\<close>

fun detach :: "(nat \<times> nat) list \<Rightarrow> dep list \<Rightarrow> dep list" where
  "detach [] ds = ds"
| "detach ((g, i) # rest) ds =
     detach rest
       (if i < length ds
        then ds[i := (ds ! i)\<lparr>dep_listeners := set_delete (Own g i) (dep_listeners (ds ! i))\<rparr>]
        else ds)"

definition cmp_unsubscribe :: "cbid \<Rightarrow> computed \<Rightarrow> error + computed \<times> event list" where
  "cmp_unsubscribe callback c =
     (let c1 = c\<lparr>cmp_subscribers := set_delete callback (cmp_subscribers c)\<rparr>
      in if cmp_subscribers c1 = []
         then (case cmp_dispose c1 of
                 None \<Rightarrow> Inl NotAFunction
               | Some fs \<Rightarrow>
                   Inr (c1\<lparr>deps := detach fs (deps c1), cmp_dispose := Some [], cache := []\<rparr>, []))
         else Inr (c1, []))"

text \<open>
  \<open>get\<close>: the callback of \<open>deps.map\<close> for slot \<open>i\<close>, the map over the slots, and the
  call of the transform (without a transform the arguments are the result).
\<close>

definition slot :: "dep list \<Rightarrow> nat \<Rightarrow> val list \<Rightarrow> val list \<times> val \<times> event list" where
  "slot ds i ch =
     (if falsy (arr_get ch i)
      then (let v = dep_value (ds ! i) in (arr_set ch i v, arr_get (arr_set ch i v) i, [DepGet i]))
      else (ch, arr_get ch i, []))"

fun slots :: "dep list \<Rightarrow> nat list \<Rightarrow> val list \<Rightarrow> val list \<times> val list \<times> event list" where
  "slots ds [] ch = (ch, [], [])"
| "slots ds (i # is) ch =
     (let (ch1, a, es1) = slot ds i ch; (ch2, as, es2) = slots ds is ch1
      in (ch2, a # as, es1 @ es2))"

definition cmp_get :: "(val list \<Rightarrow> val) option \<Rightarrow> computed \<Rightarrow> (val list + val) \<times> computed \<times> event list" where
  "cmp_get transform c =
     (let (ch, args, es) = slots (deps c) [0..<length (deps c)] (cache c)
      in case transform of
           Some f \<Rightarrow> (Inr (f args), c\<lparr>cache := ch\<rparr>, es @ [TransformCalled args])
         | None \<Rightarrow> (Inl args, c\<lparr>cache := ch\<rparr>, es))"

text \<open>
  A dependency changes its value and notifies its subscribers in order. The listener
  of slot \<open>i\<close> compares the cache slot with the dependency's value, stores the value
  and notifies the subscribers of the computed source.
\<close>

definition listener_run :: "nat \<Rightarrow> computed \<Rightarrow> computed \<times> event list" where
  "listener_run i c =
     (let v = dep_value (deps c ! i)
      in if arr_get (cache c) i \<noteq> v
         then (c\<lparr>cache := arr_set (cache c) i v\<rparr>,
               [DepGet i, DepGet i] @ map Notified (cmp_subscribers c))
         else (c, [DepGet i]))"

fun notify_listeners :: "listener list \<Rightarrow> computed \<Rightarrow> computed \<times> event list" where
  "notify_listeners [] c = (c, [])"
| "notify_listeners (Other cb # ls) c =
     (let (c2, es2) = notify_listeners ls c in (c2, Notified cb # es2))"
| "notify_listeners (Own g i # ls) c =
     (let (c1, es1) = listener_run i c; (c2, es2) = notify_listeners ls c1 in (c2, es1 @ es2))"

definition dep_set :: "nat \<Rightarrow> val \<Rightarrow> computed \<Rightarrow> computed \<times> event list" where
  "dep_set i v c =
     (if i < length (deps c) \<and> dep_value (deps c ! i) \<noteq> v
      then notify_listeners (dep_listeners (deps c ! i))
             (c\<lparr>deps := (deps c)[i := (deps c ! i)\<lparr>dep_value := v\<rparr>]\<rparr>)
      else (c, []))"

subsection \<open>\<open>createConnection\<close>\<close>

text \<open>
  The closure variables \<open>value\<close>, \<open>dispose\<close> and \<open>subscribers\<close>. \<open>dispose\<close> holds,
  for each handler tuple, the function that disconnects the handler id \<open>connect\<close>
  returned.
\<close>

record connection =
  con_value :: val
  con_dispose :: "(nat \<times> nat) list option"
  con_subscribers :: "cbid list"

definition createConnection :: "val \<Rightarrow> connection" where
  "createConnection init = \<lparr>con_value = init, con_dispose = None, con_subscribers = []\<rparr>"

text \<open>\<open>ids\<close>: the handler ids \<open>connect\<close> returns for the tuples, should this call connect them.\<close>

definition con_subscribe :: "nat list \<Rightarrow> cbid \<Rightarrow> connection \<Rightarrow> connection \<times> event list" where
  "con_subscribe ids callback k =
     (let (k1, es) =
            (if con_subscribers k = []
             then (k\<lparr>con_dispose := Some (enumerate 0 ids)\<rparr>,
                   map (\<lambda>(i, h). Connected i h) (enumerate 0 ids))
             else (k, []))
      in (k1\<lparr>con_subscribers := set_add callback (con_subscribers k1)\<rparr>, es))"

definition con_unsubscribe :: "cbid \<Rightarrow> connection \<Rightarrow> error + connection \<times> event list" where
  "con_unsubscribe callback k =
     (let k1 = k\<lparr>con_subscribers := set_delete callback (con_subscribers k)\<rparr>
      in if con_subscribers k1 = []
         then (case con_dispose k1 of
                 None \<Rightarrow> Inl NotAFunction
               | Some fs \<Rightarrow>
                   Inr (k1\<lparr>con_dispose := Some []\<rparr>, map (\<lambda>(i, h). Disconnected i h) fs))
         else Inr (k1, []))"

text \<open>A connected handler runs: \<open>newValue\<close> is what the reducer returned.\<close>

definition con_signal :: "val \<Rightarrow> connection \<Rightarrow> connection \<times> event list" where
  "con_signal newValue k =
     (if con_value k \<noteq> newValue
      then (k\<lparr>con_value := newValue\<rparr>, map Notified (con_subscribers k))
      else (k, []))"

text \<open>Examples: a transform, dependencies, producers and a history.\<close>

fun double :: "val list \<Rightarrow> val" where
  "double [Num n] = Num (2 * n)"
| "double _ = Undefined"

definition one_dep :: computed where
  "one_dep = createComputed [\<lparr>dep_value = Num 1, dep_listeners = []\<rparr>]"

definition ticker :: producer where
  "ticker = \<lparr>pushes = [SetValue (Num 1)], returns = 10\<rparr>"

definition ticker2 :: producer where
  "ticker2 = \<lparr>pushes = [], returns = 11\<rparr>"

definition drain_history :: "ext_op list" where
  "drain_history =
     [Subscribe ticker 1, Subscribe ticker2 2, Unsubscribe 1, Push (SetValue (Num 5)),
      Unsubscribe 2, Subscribe ticker2 3]"

text \<open>
  One callback subscribed twice, and each of the two functions returned called once.
\<close>

definition twice_history :: "ext_op list" where
  "twice_history = [Subscribe ticker2 1, Subscribe ticker2 1, Unsubscribe 1, Unsubscribe 1]"

text \<open>
  The subscriber count going from 0 to 1 and from 1 to 0 over a call, and the events
  of the steps of a history.
\<close>

definition up_transition :: "external \<Rightarrow> external \<Rightarrow> bool" where
  "up_transition x x' = (length (ext_subscribers x) = 0 \<and> length (ext_subscribers x') = 1)"

definition down_transition :: "external \<Rightarrow> external \<Rightarrow> bool" where
  "down_transition x x' = (length (ext_subscribers x) = 1 \<and> length (ext_subscribers x') = 0)"

fun is_unsubscribe :: "ext_op \<Rightarrow> bool" where
  "is_unsubscribe (Unsubscribe cb) = True"
| "is_unsubscribe _ = False"

fun events_of :: "ext_stepinfo list \<Rightarrow> event list" where
  "events_of [] = []"
| "events_of ((x, tr, op, es, x') # ss) = es @ events_of ss"

fun is_transform :: "event \<Rightarrow> bool" where
  "is_transform (TransformCalled as) = True"
| "is_transform _ = False"

text \<open>
  What holds of an external source and the trace so far after any history: once a
  \<open>subscribe\<close> has happened, \<open>dispose\<close> is assigned, and it is what the last call
  of the producer returned. And the conditions stated for one step of a history.
\<close>

definition ext_inv :: "external \<Rightarrow> event list \<Rightarrow> cbid list \<Rightarrow> bool" where
  "ext_inv x tr pending =
     ((pending \<noteq> [] \<or> ext_subscribers x \<noteq> [] \<longrightarrow> ext_dispose x \<noteq> None)
      \<and> (\<forall>d. ext_dispose x = Some d \<longrightarrow>
            filter is_producer tr \<noteq> [] \<and> last (filter is_producer tr) = ProducerCalled d))"

definition step_ok :: "ext_stepinfo \<Rightarrow> bool" where
  "step_ok = (\<lambda>(x, tr, op, es, x').
      (up_transition x x' \<longrightarrow>
          (\<exists>pr cb. op = Subscribe pr cb \<and> filter is_producer es = [ProducerCalled (returns pr)])
          \<and> filter is_disposer es = [])
    \<and> (down_transition x x' \<longrightarrow>
          filter is_producer es = []
          \<and> (\<exists>d. filter is_disposer es = [DisposerCalled d]
                  \<and> last (filter is_producer tr) = ProducerCalled d))
    \<and> (\<not> up_transition x x' \<longrightarrow> filter is_producer es = [])
    \<and> (is_subscribe op \<and> ext_subscribers x = [] \<longrightarrow> up_transition x x')
    \<and> (filter is_disposer es \<noteq> []) = (is_unsubscribe op \<and> ext_subscribers x' = []))"

section \<open>Fragments (Fragment.ts)\<close>

text \<open>
  A fragment is its array \<open>_children\<close>. \<open>findIndex\<close> gives \<open>-1\<close> when nothing
  matches, and \<open>splice(index, 1)\<close> with a negative index counts from the end.
\<close>

fun findIndex :: "'a \<Rightarrow> 'a list \<Rightarrow> int" where
  "findIndex c [] = - 1"
| "findIndex c (x # xs) =
     (if x = c then 0 else (let r = findIndex c xs in if r < 0 then - 1 else r + 1))"

definition splice1 :: "int \<Rightarrow> 'a list \<Rightarrow> 'a list" where
  "splice1 i xs =
     (let start = (if i < 0 then nat (max (int (length xs) + i) 0) else min (nat i) (length xs))
      in take start xs @ drop (Suc start) xs)"

definition hasChild :: "elem \<Rightarrow> elem list \<Rightarrow> bool" where
  "hasChild child cs = (findIndex child cs > - 1)"

definition removeChild :: "elem \<Rightarrow> elem list \<Rightarrow> elem list \<times> event list" where
  "removeChild child cs =
     (let index = findIndex child cs in (splice1 index cs, [ChildRemoved child index]))"

definition addChild :: "elem \<Rightarrow> int \<Rightarrow> elem list \<Rightarrow> error + elem list \<times> event list" where
  "addChild child index cs =
     (case child of
        Fragment a \<Rightarrow> Inl NestedFragment
      | Widget a \<Rightarrow>
          (if index > 0
           then Inr (take (nat index) cs @ [child] @ drop (nat index) cs, [ChildAdded child (nat index)])
           else Inr (cs @ [child], [ChildAdded child (length cs)])))"

section \<open>The collection reconciler (For.ts)\<close>

text \<open>
  The \<open>cleanup\<close> prop: a function, \<open>null\<close>, or not given. The render function
  \<open>children\<close> is opaque: a call returns an output, and may register cleanup and mount
  callbacks with the scope it runs under and subscribe callbacks to the index signal
  it is given. What a call does may depend on the item, the index signal and the
  scope.
\<close>

datatype cleanup_prop = CleanupFn | CleanupNull | CleanupUndefined

record rendered =
  out :: elem
  reg_cleanups :: "cbid list"
  reg_mounts :: "cbid list"
  reg_index :: "cbid list"

record for_props =
  id_prop :: "val \<Rightarrow> val"
  mkChild :: "val \<Rightarrow> sigid \<Rightarrow> sid \<Rightarrow> rendered"
  cleanup :: cleanup_prop

text \<open>\<open>MapItem\<close>; \<open>index\<close> is the signal whose accessor and setter the pair holds.\<close>

record map_item =
  item :: val
  child :: elem
  index :: sigid
  scope :: sid

text \<open>
  The variables of one \<open>For\<close>: \<open>currentScope\<close>, the insertion-ordered \<open>map\<close> from
  keys to items, and the children of \<open>fragment\<close>.
\<close>

record for_state =
  currentScope :: sid
  tracked :: "(val \<times> map_item) list"
  fragment :: "elem list"

text \<open>\<open>remove\<close>.\<close>

definition For_remove :: "cleanup_prop \<Rightarrow> map_item \<Rightarrow> world \<Rightarrow> world" where
  "For_remove cl mi w =
     Scope_dispose (scope mi)
       (case cl of
          CleanupFn \<Rightarrow> emit [UserCleanup (child mi) (item mi) (sig_get (index mi) w)] w
        | CleanupUndefined \<Rightarrow> emit [DefaultCleanup (child mi)] w
        | CleanupNull \<Rightarrow> w)"

text \<open>
  The first loop of \<open>callback\<close>, over the entries of \<open>map\<close>: it returns the entries
  that stay, the children of the fragment and the heap.
\<close>

fun sweep :: "cleanup_prop \<Rightarrow> val list \<Rightarrow> (val \<times> map_item) list \<Rightarrow> elem list \<Rightarrow> world
    \<Rightarrow> (val \<times> map_item) list \<times> elem list \<times> world" where
  "sweep cl ids [] frag w = ([], frag, w)"
| "sweep cl ids ((key, value) # es) frag w =
     (let (frag1, ev) = removeChild (child value) frag;
          w1 = emit ev w
      in if key \<notin> set ids
         then sweep cl ids es frag1 (For_remove cl value w1)
         else (let (kept, frag2, w2) = sweep cl ids es frag1 w1 in ((key, value) # kept, frag2, w2)))"

text \<open>The body \<open>() => mkChild(item, index)\<close>, run under the new scope \<open>s\<close>.\<close>

definition render_body :: "val \<Rightarrow> sigid \<Rightarrow> sid \<Rightarrow> rendered \<Rightarrow> world \<Rightarrow> elem \<times> world" where
  "render_body it g s r w =
     (out r,
      fold (sig_subscribe g) (reg_index r)
        (fold onMount (reg_mounts r)
          (fold onCleanup (reg_cleanups r) (emit [RenderCalled it g s] w))))"

text \<open>
  The branch of the second loop for a key that is not in \<open>map\<close>: a new index signal,
  a new scope under \<open>currentScope\<close>, the render call under it, and the new item.
\<close>

definition make_child :: "for_props \<Rightarrow> sid \<Rightarrow> val \<Rightarrow> nat \<Rightarrow> world \<Rightarrow> map_item \<times> world" where
  "make_child P cs it i w =
     (let (g, w1) = createState (Num (int i)) w;
          (s, w2) = new_Scope (Some cs) w1;
          (ch, w3) = Scope_run s (render_body it g s (mkChild P it g s)) w2
      in (\<lparr>item = it, child = ch, index = g, scope = s\<rparr>, w3))"

text \<open>
  The second loop of \<open>callback\<close>, \<open>items.map((item, i) => ...)\<close>: its body for one
  item and position, on \<open>map\<close>, the fragment's children and the heap, and the loop.
  An exception (from \<open>addChild\<close>) ends it.
\<close>

type_synonym place_state = "(val \<times> map_item) list \<times> elem list \<times> world"

definition place_item :: "for_props \<Rightarrow> sid \<Rightarrow> val \<times> nat \<Rightarrow> place_state \<Rightarrow> error + place_state" where
  "place_item P cs x st =
     (case x of (it, i) \<Rightarrow> case st of (m, frag, w) \<Rightarrow>
        (let key = id_prop P it
         in case map_of m key of
              Some mi \<Rightarrow>
                (let w1 = sig_set (index mi) (SetValue (Num (int i))) w
                 in if hasChild (child mi) frag
                    then Inr (m, frag, emit [ConsoleWarn key] w1)
                    else (case addChild (child mi) (- 1) frag of
                            Inl e \<Rightarrow> Inl e
                          | Inr (frag1, ev) \<Rightarrow> Inr (m, frag1, emit ev w1)))
            | None \<Rightarrow>
                (let (mi, w3) = make_child P cs it i w
                 in case addChild (child mi) (- 1) frag of
                      Inl e \<Rightarrow> Inl e
                    | Inr (frag1, ev) \<Rightarrow> Inr (m @ [(key, mi)], frag1, emit ev w3))))"

fun place :: "for_props \<Rightarrow> sid \<Rightarrow> (val \<times> nat) list \<Rightarrow> place_state \<Rightarrow> error + place_state" where
  "place P cs [] st = Inr st"
| "place P cs (x # xs) st =
     (case place_item P cs x st of Inl e \<Rightarrow> Inl e | Inr st1 \<Rightarrow> place P cs xs st1)"

text \<open>\<open>callback\<close>: one pass over the materialized input. An exception ends the pass.\<close>

definition For_callback :: "for_props \<Rightarrow> val list \<Rightarrow> for_state \<Rightarrow> world \<Rightarrow> error + for_state \<times> world" where
  "For_callback P items st w =
     (let ids = map (id_prop P) items;
          (m1, frag1, w1) = sweep (cleanup P) ids (tracked st) (fragment st) w
      in case place P (currentScope st) (zip items [0..<length items]) (m1, frag1, w1) of
           Inl e \<Rightarrow> Inl e
         | Inr (m2, frag2, w2) \<Rightarrow> Inr (st\<lparr>tracked := m2, fragment := frag2\<rparr>, w2))"

text \<open>
  The body of \<open>For\<close>. The source \<open>each\<close> is any accessor and is opaque: \<open>items\<close> is
  what \<open>each.get()\<close> returns, materialized, and subscribing to it is recorded in the
  trace (no source calls a subscriber during \<open>subscribe\<close>). \<open>sub\<close> is the closure
  \<open>() => callback(each.get())\<close> that is subscribed, so a change of the source is a call
  of \<open>For_callback\<close> on the new items; \<open>cl\<close> is the closure handed to \<open>onCleanup\<close>,
  whose body is \<open>For_cleanup\<close>. An exception in the first pass leaves \<open>For\<close> before
  \<open>onCleanup\<close> is reached.
\<close>

definition For_init :: "for_props \<Rightarrow> val list \<Rightarrow> cbid \<Rightarrow> cbid \<Rightarrow> world \<Rightarrow> error + for_state \<times> world" where
  "For_init P items sub cl w =
     (case getScope w of
        Inl e \<Rightarrow> Inl e
      | Inr cs \<Rightarrow>
          (case For_callback P items \<lparr>currentScope = cs, tracked = [], fragment = []\<rparr>
                  (emit [SourceSubscribed sub] w) of
             Inl e \<Rightarrow> Inl e
           | Inr (st, w1) \<Rightarrow> Inr (st, onCleanup cl w1)))"

text \<open>
  The closure registered with \<open>onCleanup\<close>: \<open>dispose()\<close>, then \<open>remove(value)\<close> for
  the values of \<open>map\<close> in order, then \<open>map.clear()\<close>. It leaves the fragment alone.
\<close>

definition For_cleanup :: "for_props \<Rightarrow> cbid \<Rightarrow> for_state \<Rightarrow> world \<Rightarrow> for_state \<times> world" where
  "For_cleanup P sub st w =
     (st\<lparr>tracked := []\<rparr>,
      fold (\<lambda>(k, mi). For_remove (cleanup P) mi) (tracked st) (emit [SourceUnsubscribed sub] w))"

section \<open>The optional-value reconciler (With.ts)\<close>

text \<open>A call of the render function of \<open>With\<close>: an output or nothing (\<open>""\<close>, \<open>false\<close>,
  \<open>null\<close>, \<open>undefined\<close>), and the callbacks it registers with its scope.\<close>

record rendered1 =
  out1 :: "elem option"
  reg_cleanups1 :: "cbid list"
  reg_mounts1 :: "cbid list"

record with_props =
  mkChild1 :: "val \<Rightarrow> sid \<Rightarrow> rendered1"
  cleanup1 :: cleanup_prop

text \<open>The variables of one \<open>With\<close>; \<open>scope\<close> is not assigned before the first pass.\<close>

record with_state =
  currentScope1 :: sid
  scope1 :: "sid option"
  fragment1 :: "elem list"

text \<open>The loop of \<open>callback\<close> over a copy of the fragment's children.\<close>

fun with_clear :: "cleanup_prop \<Rightarrow> sid option \<Rightarrow> elem list \<Rightarrow> elem list \<Rightarrow> world \<Rightarrow> elem list \<times> world" where
  "with_clear cl sc [] frag w = (frag, w)"
| "with_clear cl sc (ch # rest) frag w =
     (let (frag1, ev) = removeChild ch frag;
          w1 = emit ev w;
          w2 = (case cl of
                  CleanupFn \<Rightarrow> emit [UserCleanup1 ch] w1
                | CleanupUndefined \<Rightarrow> emit [DefaultCleanup ch] w1
                | CleanupNull \<Rightarrow> w1);
          w3 = (case sc of Some s \<Rightarrow> Scope_dispose s w2 | None \<Rightarrow> w2)
      in with_clear cl sc rest frag1 w3)"

definition render_body1 :: "val \<Rightarrow> sid \<Rightarrow> rendered1 \<Rightarrow> world \<Rightarrow> elem option \<times> world" where
  "render_body1 v s r w =
     (out1 r,
      fold onMount (reg_mounts1 r) (fold onCleanup (reg_cleanups1 r) (emit [WithRendered v s] w)))"

definition With_callback :: "with_props \<Rightarrow> val \<Rightarrow> with_state \<Rightarrow> world \<Rightarrow> error + with_state \<times> world" where
  "With_callback P v st w =
     (let (frag1, w1) = with_clear (cleanup1 P) (scope1 st) (fragment1 st) (fragment1 st) w;
          (s, w2) = new_Scope (Some (currentScope1 st)) w1;
          (ch, w3) = Scope_run s (render_body1 v s (mkChild1 P v s)) w2;
          st1 = st\<lparr>scope1 := Some s\<rparr>
      in case ch of
           None \<Rightarrow> Inr (st1\<lparr>fragment1 := frag1\<rparr>, w3)
         | Some c \<Rightarrow>
             (case addChild c (- 1) frag1 of
                Inl e \<Rightarrow> Inl e
              | Inr (frag2, ev) \<Rightarrow> Inr (st1\<lparr>fragment1 := frag2\<rparr>, emit ev w3)))"

text \<open>
  The body of \<open>With\<close>, with the source \<open>value\<close> treated as \<open>each\<close> is in \<open>For\<close>:
  \<open>v\<close> is what \<open>value.get()\<close> returns, \<open>sub\<close> is the subscribed closure
  \<open>() => callback(value.get())\<close>, and \<open>cl\<close> is the closure handed to \<open>onCleanup\<close>,
  whose body is \<open>With_cleanup\<close>: \<open>scope.dispose()\<close>, then \<open>dispose()\<close>.
\<close>

definition With_init :: "with_props \<Rightarrow> val \<Rightarrow> cbid \<Rightarrow> cbid \<Rightarrow> world \<Rightarrow> error + with_state \<times> world" where
  "With_init P v sub cl w =
     (case getScope w of
        Inl e \<Rightarrow> Inl e
      | Inr cs \<Rightarrow>
          (case With_callback P v \<lparr>currentScope1 = cs, scope1 = None, fragment1 = []\<rparr>
                  (emit [SourceSubscribed sub] w) of
             Inl e \<Rightarrow> Inl e
           | Inr (st, w1) \<Rightarrow> Inr (st, onCleanup cl w1)))"

definition With_cleanup :: "cbid \<Rightarrow> with_state \<Rightarrow> world \<Rightarrow> error + world" where
  "With_cleanup sub st w =
     (case scope1 st of
        None \<Rightarrow> Inl NotAFunction
      | Some s \<Rightarrow> Inr (emit [SourceUnsubscribed sub] (Scope_dispose s w)))"

text \<open>Examples for \<open>With\<close>: a render function that returns nothing for 0.\<close>

fun is_disposed :: "event \<Rightarrow> bool" where
  "is_disposed (ScopeDisposed s) = True"
| "is_disposed (CleanupRan cb) = True"
| "is_disposed _ = False"

definition maybe_label :: with_props where
  "maybe_label =
     \<lparr>mkChild1 = (\<lambda>v s. if v = Num 0
          then \<lparr>out1 = None, reg_cleanups1 = [7], reg_mounts1 = []\<rparr>
          else \<lparr>out1 = Some (Widget s), reg_cleanups1 = [8], reg_mounts1 = []\<rparr>),
      cleanup1 = CleanupUndefined\<rparr>"

definition root_world :: world where
  "root_world = empty_world\<lparr>scopes := (\<lambda>_. empty_scope)(0 := empty_scope\<lparr>mounted := True\<rparr>),
       nscopes := 1, current := Some 0\<rparr>"

section \<open>What a pass of the collection reconciler has to keep\<close>

text \<open>Kinds of events.\<close>

fun is_scope_disposed :: "event \<Rightarrow> bool" where
  "is_scope_disposed (ScopeDisposed s) = True"
| "is_scope_disposed _ = False"

fun is_teardown :: "event \<Rightarrow> bool" where
  "is_teardown (UserCleanup c it v) = True"
| "is_teardown (DefaultCleanup c) = True"
| "is_teardown _ = False"

fun is_render :: "event \<Rightarrow> bool" where
  "is_render (RenderCalled it g s) = True"
| "is_render _ = False"

fun is_warn :: "event \<Rightarrow> bool" where
  "is_warn (ConsoleWarn k) = True"
| "is_warn _ = False"

fun is_added :: "event \<Rightarrow> bool" where
  "is_added (ChildAdded c n) = True"
| "is_added _ = False"

text \<open>The teardown call \<open>remove\<close> makes for an item, if any, and the render call that made it.\<close>

fun teardown_of :: "cleanup_prop \<Rightarrow> world \<Rightarrow> map_item \<Rightarrow> event list" where
  "teardown_of CleanupFn w mi = [UserCleanup (child mi) (item mi) (sig_get (index mi) w)]"
| "teardown_of CleanupUndefined w mi = [DefaultCleanup (child mi)]"
| "teardown_of CleanupNull w mi = []"

definition render_of :: "map_item \<Rightarrow> event" where
  "render_of mi = RenderCalled (item mi) (index mi) (scope mi)"

text \<open>
  Every call of the render function returns a widget, and no two calls under
  different scopes return the same one (a render call makes its output).
\<close>

definition fresh_outputs :: "for_props \<Rightarrow> bool" where
  "fresh_outputs P =
     ((\<forall>it g s. \<exists>a. out (mkChild P it g s) = Widget a)
      \<and> (\<forall>it g s it' g' s'. out (mkChild P it g s) = out (mkChild P it' g' s') \<longrightarrow> s = s'))"

text \<open>
  The entries of \<open>map\<close>: one per key, each with its own output, scope and index
  signal, all allocated, the output being what the render call under the entry's
  scope returned.
\<close>

definition entries_ok :: "for_props \<Rightarrow> (val \<times> map_item) list \<Rightarrow> world \<Rightarrow> bool" where
  "entries_ok P m w =
     (distinct (map fst m)
      \<and> distinct (map (\<lambda>(k, mi). child mi) m)
      \<and> distinct (map (\<lambda>(k, mi). scope mi) m)
      \<and> distinct (map (\<lambda>(k, mi). index mi) m)
      \<and> (\<forall>(k, mi) \<in> set m.
            scope mi < nscopes w \<and> index mi < nsigs w
            \<and> child mi = out (mkChild P (item mi) (index mi) (scope mi))))"

text \<open>Between passes the fragment holds exactly the outputs of the entries, each once.\<close>

definition For_inv :: "for_props \<Rightarrow> for_state \<Rightarrow> world \<Rightarrow> bool" where
  "For_inv P st w =
     (entries_ok P (tracked st) w
      \<and> distinct (fragment st)
      \<and> set (fragment st) = (\<lambda>(k, mi). child mi) ` set (tracked st))"

text \<open>
  The first occurrences of the elements of a list that are not in a set, in order,
  and the last position of a key in the list of keys.
\<close>

fun fresh_firsts :: "'a list \<Rightarrow> 'a set \<Rightarrow> 'a list" where
  "fresh_firsts [] S = []"
| "fresh_firsts (k # ks) S =
     (if k \<in> S then fresh_firsts ks S else k # fresh_firsts ks (insert k S))"

definition firsts :: "'a list \<Rightarrow> 'a list" where
  "firsts ks = fresh_firsts ks {}"

definition last_pos :: "'a \<Rightarrow> 'a list \<Rightarrow> nat" where
  "last_pos k ks = last (map snd (filter (\<lambda>(k', i). k' = k) (zip ks [0..<length ks])))"

definition child_of :: "(val \<times> map_item) list \<Rightarrow> val \<Rightarrow> elem option" where
  "child_of m k = map_option child (map_of m k)"

text \<open>
  Notions for the second loop: the keys whose outputs are in the fragment, the keys
  and positions of the items, the repeated occurrences of keys, the children added
  according to the trace, and what the loop achieves from one state to another.
\<close>

definition removed :: "val list \<Rightarrow> (val \<times> map_item) list \<Rightarrow> map_item list" where
  "removed ids m = map snd (filter (\<lambda>(k, mi). k \<notin> set ids) m)"

definition same_frame :: "world \<Rightarrow> world \<Rightarrow> bool" where
  "same_frame w w' =
     (nscopes w' = nscopes w \<and> nsigs w' = nsigs w \<and> current w' = current w \<and> log w' = log w
      \<and> (\<forall>s. parent (scopes w' s) = parent (scopes w s))
      \<and> (\<forall>g. currentValue (sigs w' g) = currentValue (sigs w g)))"

definition place_inv :: "for_props \<Rightarrow> place_state \<Rightarrow> bool" where
  "place_inv P st =
     (case st of (m, frag, w) \<Rightarrow>
        entries_ok P m w \<and> distinct frag \<and> set frag \<subseteq> (\<lambda>(k, mi). child mi) ` set m)"

fun repeats :: "'a list \<Rightarrow> 'a set \<Rightarrow> 'a list" where
  "repeats [] S = []"
| "repeats (k # ks) S = (if k \<in> S then k # repeats ks S else repeats ks (insert k S))"

definition placed :: "(val \<times> map_item) list \<Rightarrow> elem list \<Rightarrow> val set" where
  "placed m frag = {k. \<exists>mi. map_of m k = Some mi \<and> child mi \<in> set frag}"

definition keys_of :: "for_props \<Rightarrow> (val \<times> nat) list \<Rightarrow> val list" where
  "keys_of P its = map (\<lambda>(it, i). id_prop P it) its"

definition positions :: "for_props \<Rightarrow> val \<Rightarrow> (val \<times> nat) list \<Rightarrow> nat list" where
  "positions P k its = map snd (filter (\<lambda>(it, i). id_prop P it = k) its)"

definition first_item :: "for_props \<Rightarrow> val \<Rightarrow> (val \<times> nat) list \<Rightarrow> val option" where
  "first_item P k its = map_option fst (find (\<lambda>(it, i). id_prop P it = k) its)"

fun added_children :: "event list \<Rightarrow> elem list" where
  "added_children [] = []"
| "added_children (ChildAdded c n # es) = c # added_children es"
| "added_children (e # es) = added_children es"

definition place_post :: "for_props \<Rightarrow> sid \<Rightarrow> (val \<times> nat) list \<Rightarrow> place_state \<Rightarrow> place_state \<Rightarrow> bool" where
  "place_post P cs its st st' =
     (case st of (m, frag, w) \<Rightarrow> case st' of (m', frag', w') \<Rightarrow>
        (\<exists>new added ev.
            m' = m @ new
          \<and> map fst new = fresh_firsts (keys_of P its) (fst ` set m)
          \<and> frag' = frag @ added
          \<and> map Some added = map (child_of m') (fresh_firsts (keys_of P its) (placed m frag))
          \<and> placed m' frag' = placed m frag \<union> set (keys_of P its)
          \<and> nscopes w' = nscopes w + length new \<and> nsigs w' = nsigs w + length new
          \<and> (\<forall>(k, mi) \<in> set new.
                nscopes w \<le> scope mi \<and> nsigs w \<le> index mi
                \<and> parent (scopes w' (scope mi)) = Some cs
                \<and> first_item P k its = Some (item mi))
          \<and> (\<forall>s. s < nscopes w \<longrightarrow> parent (scopes w' s) = parent (scopes w s))
          \<and> (\<forall>(k, mi) \<in> set m'.
                sig_get (index mi) w'
                  = (if positions P k its = [] then sig_get (index mi) w
                     else Num (int (last (positions P k its)))))
          \<and> log w' = log w @ ev
          \<and> filter is_scope_disposed ev = [] \<and> filter is_teardown ev = []
          \<and> filter is_render ev = map (\<lambda>(k, mi). render_of mi) new
          \<and> filter is_warn ev = map ConsoleWarn (repeats (keys_of P its) (placed m frag))
          \<and> added_children ev = added))"

definition kept :: "val list \<Rightarrow> (val \<times> map_item) list \<Rightarrow> (val \<times> map_item) list" where
  "kept ids m = filter (\<lambda>(k, mi). k \<in> set ids) m"

text \<open>Events about one output, one scope or one key.\<close>

fun teardown_for :: "elem \<Rightarrow> event \<Rightarrow> bool" where
  "teardown_for c (UserCleanup c' it v) = (c' = c)"
| "teardown_for c (DefaultCleanup c') = (c' = c)"
| "teardown_for c _ = False"

fun render_in :: "sid \<Rightarrow> event \<Rightarrow> bool" where
  "render_in s (RenderCalled it g s') = (s' = s)"
| "render_in s _ = False"

fun render_for :: "for_props \<Rightarrow> val \<Rightarrow> event \<Rightarrow> bool" where
  "render_for P k (RenderCalled it g s) = (id_prop P it = k)"
| "render_for P k _ = False"

text \<open>
  Examples for \<open>For\<close>: items are numbers, keyed by their last digit; the render
  function returns a new widget and registers one cleanup.
\<close>

fun last_digit :: "val \<Rightarrow> val" where
  "last_digit (Num n) = Num (n mod 10)"
| "last_digit v = v"

definition labels :: "cleanup_prop \<Rightarrow> for_props" where
  "labels cl =
     \<lparr>id_prop = last_digit,
      mkChild = (\<lambda>it g s. \<lparr>out = Widget s, reg_cleanups = [100 + s], reg_mounts = [], reg_index = []\<rparr>),
      cleanup = cl\<rparr>"

text \<open>
  What a trace says about the container: the outputs unmounted (\<open>None\<close>) and the
  outputs mounted, each with the position it was put at, in the order of the calls.
\<close>

fun mount_trace :: "event list \<Rightarrow> (elem \<times> nat option) list" where
  "mount_trace [] = []"
| "mount_trace (ChildAdded c n # es) = (c, Some n) # mount_trace es"
| "mount_trace (ChildRemoved c i # es) = (c, None) # mount_trace es"
| "mount_trace (e # es) = mount_trace es"

text \<open>
  Two more render functions: one that returns a fragment, and one that returns the
  same widget on every call.
\<close>

definition nested :: for_props where
  "nested =
     \<lparr>id_prop = last_digit,
      mkChild = (\<lambda>it g s. \<lparr>out = Fragment s, reg_cleanups = [], reg_mounts = [], reg_index = []\<rparr>),
      cleanup = CleanupUndefined\<rparr>"

definition shared :: for_props where
  "shared =
     \<lparr>id_prop = last_digit,
      mkChild = (\<lambda>it g s. \<lparr>out = Widget 0, reg_cleanups = [], reg_mounts = [], reg_index = []\<rparr>),
      cleanup = CleanupUndefined\<rparr>"

definition no_entries :: for_state where
  "no_entries = \<lparr>currentScope = 0, tracked = [], fragment = []\<rparr>"

subsection \<open>A running example\<close>

text \<open>
  The state and the heap after \<open>For\<close> has been set up, under the root scope, on the
  items 1, 2, 3 with the props \<open>labels cl\<close> (its closures being 20 and 21): three entries, keyed 1, 2, 3, with the
  outputs \<open>Widget 1\<close>, \<open>Widget 2\<close>, \<open>Widget 3\<close> in the scopes 1, 2, 3.
\<close>

definition trio :: "cleanup_prop \<Rightarrow> for_state \<times> world" where
  "trio cl =
     (case For_init (labels cl) [Num 1, Num 2, Num 3] 20 21 root_world of
        Inr r \<Rightarrow> r
      | Inl e \<Rightarrow> (\<lparr>currentScope = 0, tracked = [], fragment = []\<rparr>, root_world))"

section \<open>Properties of scopes and contexts\<close>

lemma scopes_upd_scope [simp]:
  "scopes (upd_scope s f w) t = (if t = s then f (scopes w s) else scopes w t)"
  by (simp add: upd_scope_def)

lemma fields_upd_scope [simp]:
  "current (upd_scope s f w) = current w"
  "log (upd_scope s f w) = log w"
  "nscopes (upd_scope s f w) = nscopes w"
  "sigs (upd_scope s f w) = sigs w"
  "nsigs (upd_scope s f w) = nsigs w"
  by (simp_all add: upd_scope_def)

lemma parent_of_upd_scope:
  "parent (f (scopes w s)) = parent (scopes w s) \<Longrightarrow> parent_of (upd_scope s f w) t = parent_of w t"
  by (simp add: parent_of_def)

subsection \<open>Context lookup\<close>

lemma use_from_first_defined:
  "use_from c dflt so w =
     (case find (\<lambda>t. map_get (contexts (scopes w t)) c \<noteq> Undefined) (scope_chain w so) of
        None \<Rightarrow> dflt
      | Some t \<Rightarrow> map_get (contexts (scopes w t)) c)"
  by (induction c dflt so w rule: use_from.induct) (simp_all add: Let_def)

lemma use_from_forget:
  assumes "contexts (scopes w s) c = Some Undefined"
  shows "use_from c dflt so (upd_scope s (\<lambda>sc. sc\<lparr>contexts := (contexts sc)(c := None)\<rparr>) w)
         = use_from c dflt so w"
  using assms
  by (induction c dflt so w rule: use_from.induct)
     (auto simp: Let_def map_get_def parent_of_upd_scope split: option.splits)

text \<open>
  Claim C10. \<open>use\<close> returns the first value other than \<open>undefined\<close> that a scope
  of the chain (the current scope, then its ancestors) stores for the context, and the
  default value when there is none. A scope that stores \<open>undefined\<close> for the context
  is passed over exactly like a scope with no entry: the lookup goes on with its
  parent, the result is the one obtained with the entry removed, and when every scope
  of the chain has no entry or an \<open>undefined\<close> one the result is the default value.
\<close>

theorem use_skips_undefined:
  "use c dflt w =
     (case find (\<lambda>t. map_get (contexts (scopes w t)) c \<noteq> Undefined) (scope_chain w (current w)) of
        None \<Rightarrow> dflt
      | Some t \<Rightarrow> map_get (contexts (scopes w t)) c)
   \<and> (contexts (scopes w s) c = Some Undefined \<longrightarrow>
        use_from c dflt (Some s) w = use_from c dflt (parent_of w s) w
      \<and> use c dflt w = use c dflt (upd_scope s (\<lambda>sc. sc\<lparr>contexts := (contexts sc)(c := None)\<rparr>) w))
   \<and> ((\<forall>t \<in> set (scope_chain w (current w)).
          contexts (scopes w t) c = None \<or> contexts (scopes w t) c = Some Undefined) \<longrightarrow>
        use c dflt w = dflt)"
proof (intro conjI impI)
  show "use c dflt w =
     (case find (\<lambda>t. map_get (contexts (scopes w t)) c \<noteq> Undefined) (scope_chain w (current w)) of
        None \<Rightarrow> dflt
      | Some t \<Rightarrow> map_get (contexts (scopes w t)) c)"
    by (simp add: use_def use_from_first_defined)
next
  assume "contexts (scopes w s) c = Some Undefined"
  then show "use_from c dflt (Some s) w = use_from c dflt (parent_of w s) w"
    by (simp add: map_get_def)
next
  assume a: "contexts (scopes w s) c = Some Undefined"
  show "use c dflt w = use c dflt (upd_scope s (\<lambda>sc. sc\<lparr>contexts := (contexts sc)(c := None)\<rparr>) w)"
    by (simp add: use_def use_from_forget [OF a])
next
  assume a: "\<forall>t \<in> set (scope_chain w (current w)).
          contexts (scopes w t) c = None \<or> contexts (scopes w t) c = Some Undefined"
  have "find (\<lambda>t. map_get (contexts (scopes w t)) c \<noteq> Undefined) (scope_chain w (current w)) = None"
    using a by (auto simp: find_None_iff map_get_def)
  then show "use c dflt w = dflt"
    by (simp add: use_def use_from_first_defined)
qed

theorem use_skips_undefined_witness:
  "contexts (scopes ctx_world 1) 0 = Some Undefined
   \<and> use_from 0 (Str ''default'') (Some 1) ctx_world = Str ''outer''
   \<and> use 0 (Str ''default'') ctx_world = Str ''outer''
   \<and> use 0 (Str ''default'') (ctx_world\<lparr>current := Some 2\<rparr>) = Str ''default''"
  using use_skips_undefined [of 0 "Str ''default''" ctx_world 1]
    use_skips_undefined [of 0 "Str ''default''" "ctx_world\<lparr>current := Some 2\<rparr>" 2]
  by (simp add: ctx_world_def empty_world_def empty_scope_def parent_of_def map_get_def use_def)

subsection \<open>Deferred mount callbacks\<close>

lemma delegates_unique:
  "delegates w s t \<Longrightarrow> outermost w t \<Longrightarrow> delegates w s t' \<Longrightarrow> outermost w t' \<Longrightarrow> t' = t"
proof (induction arbitrary: t' rule: delegates.induct)
  case (here s)
  from here.prems(2) show ?case
  proof (cases rule: delegates.cases)
    case here
    then show ?thesis by simp
  next
    case (up p)
    with here.prems(1) show ?thesis by (simp add: outermost_def)
  qed
next
  case (up s p t)
  from up.prems(2) show ?case
  proof (cases rule: delegates.cases)
    case here
    with up.prems(3) up.hyps show ?thesis by (simp add: outermost_def)
  next
    case (up p')
    with up.hyps(1) have "p' = p" by simp
    with up show ?thesis using up.IH up.prems by blast
  qed
qed

lemma delegates_le: "delegates w s t \<Longrightarrow> t \<le> s"
  by (induction rule: delegates.induct) (auto simp: parent_of_def split: option.splits if_splits)

lemma onMount_target:
  "\<exists>t. delegates w s t \<and> outermost w t \<and> Scope_onMount s cb w = add_mount t cb w"
proof (induction s cb w rule: Scope_onMount.induct)
  case (1 s cb w)
  show ?case
  proof (cases "parent_of w s")
    case None
    then show ?thesis
      by (auto simp: Scope_onMount.simps [of s] outermost_def intro: delegates.here)
  next
    case (Some p)
    show ?thesis
    proof (cases "mounted (scopes w p)")
      case True
      with Some show ?thesis
        by (auto simp: Scope_onMount.simps [of s] outermost_def intro: delegates.here)
    next
      case False
      from "1.IH" [OF Some False] obtain t where
        t: "delegates w p t" "outermost w t" "Scope_onMount p cb w = add_mount t cb w" by blast
      from Some False t(1) have "delegates w s t" by (rule delegates.up)
      moreover from Some False t(3) have "Scope_onMount s cb w = add_mount t cb w"
        by (simp add: Scope_onMount.simps [of s])
      ultimately show ?thesis using t(2) by blast
    qed
  qed
qed

lemma delegates_current [simp]: "delegates (w\<lparr>current := c\<rparr>) s t = delegates w s t"
proof
  show "delegates (w\<lparr>current := c\<rparr>) s t \<Longrightarrow> delegates w s t"
    by (induction rule: delegates.induct) (auto simp: parent_of_def intro: delegates.intros)
  show "delegates w s t \<Longrightarrow> delegates (w\<lparr>current := c\<rparr>) s t"
    by (induction rule: delegates.induct) (auto simp: parent_of_def intro: delegates.intros)
qed

lemma outermost_current [simp]: "outermost (w\<lparr>current := c\<rparr>) t = outermost w t"
  by (simp add: outermost_def parent_of_def split: option.splits)

lemma run_log:
  "log (snd (Scope_run x fn w)) =
     log (snd (fn (w\<lparr>current := Some x\<rparr>))) @ map MountRan (mounts (scopes (snd (fn (w\<lparr>current := Some x\<rparr>))) x))"
  by (simp add: Scope_run_def Let_def fire_mounts_def emit_def split: prod.splits)

lemma run_scope:
  "scopes (snd (Scope_run x fn w)) x = (scopes (snd (fn (w\<lparr>current := Some x\<rparr>))) x)\<lparr>mounts := [], mounted := True\<rparr>"
  "t \<noteq> x \<Longrightarrow> scopes (snd (Scope_run x fn w)) t = scopes (snd (fn (w\<lparr>current := Some x\<rparr>))) t"
  "current (snd (Scope_run x fn w)) = current w"
  by (simp_all add: Scope_run_def Let_def fire_mounts_def emit_def upd_scope_def split: prod.splits)

text \<open>
  Claim C7. \<open>onMount\<close> on a scope whose parent is not yet mounted hands the callback
  up the chain of not-yet-mounted ancestors: it lands in the \<open>mounts\<close> of the one scope
  \<open>t\<close> that the chain reaches and that has no parent or a mounted parent. With no
  parent or a mounted parent the callback goes into the scope's own \<open>mounts\<close>. The
  completion of \<open>run\<close> on a scope fires exactly the callbacks pending in that
  scope's \<open>mounts\<close>, after the body. So when the registering scope \<open>s\<close> has an
  unmounted parent, the completion of its own \<open>run\<close> fires only what was pending at
  \<open>s\<close> before, and the callback waits in the \<open>mounts\<close> of the outermost scope
  \<open>t\<close>, an ancestor of \<open>s\<close>, for the completion of \<open>t\<close>'s \<open>run\<close>.
\<close>

theorem onMount_waits_for_outermost:
  "(\<exists>t. delegates w s t \<and> outermost w t
        \<and> (\<forall>t'. delegates w s t' \<and> outermost w t' \<longrightarrow> t' = t)
        \<and> Scope_onMount s cb w = add_mount t cb w)
   \<and> (outermost w s \<longrightarrow> Scope_onMount s cb w = add_mount s cb w)
   \<and> (let w1 = snd (fn (w\<lparr>current := Some x\<rparr>)); w2 = snd (Scope_run x fn w)
      in log w2 = log w1 @ map MountRan (mounts (scopes w1 x))
         \<and> mounts (scopes w2 x) = [] \<and> mounted (scopes w2 x))
   \<and> (\<not> outermost w s \<longrightarrow>
        (let w' = snd (Scope_run s (register_mount cb) w)
         in log w' = log w @ map MountRan (mounts (scopes w s))
            \<and> (\<exists>t. t < s \<and> delegates w s t \<and> outermost w t
                    \<and> mounts (scopes w' t) = set_add cb (mounts (scopes w t)))))"
proof (intro conjI impI)
  from onMount_target [of w s cb] obtain t where
    t: "delegates w s t" "outermost w t" "Scope_onMount s cb w = add_mount t cb w" by blast
  with delegates_unique [OF t(1) t(2)]
  show "\<exists>t. delegates w s t \<and> outermost w t
        \<and> (\<forall>t'. delegates w s t' \<and> outermost w t' \<longrightarrow> t' = t)
        \<and> Scope_onMount s cb w = add_mount t cb w"
    by blast
next
  assume "outermost w s"
  then show "Scope_onMount s cb w = add_mount s cb w"
    by (auto simp: Scope_onMount.simps [of s] outermost_def split: option.splits)
next
  show "let w1 = snd (fn (w\<lparr>current := Some x\<rparr>)); w2 = snd (Scope_run x fn w)
      in log w2 = log w1 @ map MountRan (mounts (scopes w1 x))
         \<and> mounts (scopes w2 x) = [] \<and> mounted (scopes w2 x)"
    by (simp add: Let_def run_log run_scope)
next
  assume no: "\<not> outermost w s"
  let ?wi = "w\<lparr>current := Some s\<rparr>"
  from onMount_target [of ?wi s cb] obtain t where
    t: "delegates w s t" "outermost w t" "Scope_onMount s cb ?wi = add_mount t cb ?wi" by auto
  from t(1) no t(2) have "t \<noteq> s" by auto
  with delegates_le [OF t(1)] have lt: "t < s" by simp
  have body: "snd (register_mount cb ?wi) = add_mount t cb ?wi"
    by (simp add: register_mount_def onMount_def t(3))
  have "log (snd (Scope_run s (register_mount cb) w)) = log w @ map MountRan (mounts (scopes w s))"
    using lt by (simp add: run_log body add_mount_def)
  moreover have "mounts (scopes (snd (Scope_run s (register_mount cb) w)) t) = set_add cb (mounts (scopes w t))"
    using lt by (simp add: run_scope(2) body add_mount_def)
  ultimately show "let w' = snd (Scope_run s (register_mount cb) w)
         in log w' = log w @ map MountRan (mounts (scopes w s))
            \<and> (\<exists>t. t < s \<and> delegates w s t \<and> outermost w t
                    \<and> mounts (scopes w' t) = set_add cb (mounts (scopes w t)))"
    using lt t(1) t(2) by (auto simp: Let_def)
qed

theorem onMount_waits_for_outermost_witness:
  "\<not> outermost nest_world 2 \<and> outermost nest_world 0
   \<and> Scope_onMount 2 7 nest_world = add_mount 0 7 nest_world
   \<and> Scope_onMount 0 7 nest_world = add_mount 0 7 nest_world
   \<and> log (snd (Scope_run 2 (register_mount 7) nest_world)) = [MountRan 5]
   \<and> mounts (scopes (snd (Scope_run 2 (register_mount 7) nest_world)) 0) = [1, 7]
   \<and> log (snd (Scope_run 0 (register_mount 7) nest_world)) = [MountRan 1, MountRan 7]"
  using onMount_waits_for_outermost [of nest_world 2 7 "register_mount 7" 0]
    onMount_waits_for_outermost [of nest_world 0 7 "register_mount 7" 0]
  by (simp add: nest_world_def empty_world_def empty_scope_def outermost_def parent_of_def
      Scope_onMount.simps add_mount_def upd_scope_def set_add_def Scope_run_def register_mount_def
      onMount_def fire_mounts_def emit_def Let_def)

text \<open>
  Three nested scopes under construction: the callback registered in the innermost
  one fires once, at the end of the outermost \<open>run\<close>, after the callback that was
  pending there.
\<close>

lemma nested_example:
  "log (snd (Scope_run 0 (in_child (in_child (register_mount 7))) (nest_world\<lparr>current := None\<rparr>)))
    = [MountRan 1, MountRan 7]"
  by (simp add: nest_world_def empty_world_def empty_scope_def outermost_def parent_of_def
      Scope_onMount.simps add_mount_def upd_scope_def set_add_def Scope_run_def register_mount_def
      onMount_def fire_mounts_def emit_def Let_def in_child_def new_Scope_def)


subsection \<open>\<open>provide\<close>\<close>

lemma current_noop: "current w = c \<Longrightarrow> w\<lparr>current := c\<rparr> = w"
  by auto

lemma provide_Some:
  assumes "current w = Some s"
  shows "provide c v fn w =
     (let w2 = fn (upd_scope s (\<lambda>sc. sc\<lparr>contexts := (contexts sc)(c \<mapsto> v)\<rparr>) w)
      in (Inr (fst w2), (fire_mounts s (snd w2))\<lparr>current := Some s\<rparr>))"
proof -
  let ?w1 = "upd_scope s (\<lambda>sc. sc\<lparr>contexts := (contexts sc)(c \<mapsto> v)\<rparr>) w"
  have eq: "?w1\<lparr>current := Some s\<rparr> = ?w1"
    using assms by (intro current_noop) simp
  show ?thesis
    by (simp add: provide_def getScope_def Scope_run_def Let_def assms eq split: prod.splits)
qed

text \<open>
  What \<open>provide\<close> does. \<open>provide(value, fn)\<close> fails with the scope-access
  error when no scope is current. Otherwise it writes the value into the context map
  of the current scope (no scope is created, the other scopes are untouched) and runs
  \<open>fn\<close> through \<open>run\<close> of that same scope: \<open>fn\<close> sees the scope as current with
  the value stored, and when it finishes the callbacks pending in the scope's
  \<open>mounts\<close> are fired and cleared and \<open>mounted\<close> is set. The stored value stays
  after \<open>provide\<close> returns, and a second \<open>provide\<close> for the same context on the
  same scope overwrites it.
\<close>

theorem provide_runs_current_scope:
  "(current w = None \<longrightarrow> provide c v fn w = (Inl NoScope, w))
   \<and> (current w = Some s \<longrightarrow>
        (let w1 = upd_scope s (\<lambda>sc. sc\<lparr>contexts := (contexts sc)(c \<mapsto> v)\<rparr>) w;
             w2 = snd (fn w1);
             w3 = snd (provide c v fn w)
         in current w1 = Some s \<and> nscopes w1 = nscopes w
            \<and> contexts (scopes w1 s) c = Some v
            \<and> (\<forall>t. t \<noteq> s \<longrightarrow> scopes w1 t = scopes w t)
            \<and> fst (provide c v fn w) = Inr (fst (fn w1))
            \<and> log w3 = log w2 @ map MountRan (mounts (scopes w2 s))
            \<and> mounts (scopes w3 s) = [] \<and> mounted (scopes w3 s)
            \<and> contexts (scopes w3 s) = contexts (scopes w2 s)
            \<and> current w3 = Some s)
        \<and> contexts (scopes (snd (provide c v' skip (snd (provide c v skip w)))) s) c = Some v')"
proof (intro conjI impI)
  assume "current w = None"
  then show "provide c v fn w = (Inl NoScope, w)"
    by (simp add: provide_def getScope_def)
next
  assume s: "current w = Some s"
  show "let w1 = upd_scope s (\<lambda>sc. sc\<lparr>contexts := (contexts sc)(c \<mapsto> v)\<rparr>) w;
             w2 = snd (fn w1);
             w3 = snd (provide c v fn w)
         in current w1 = Some s \<and> nscopes w1 = nscopes w
            \<and> contexts (scopes w1 s) c = Some v
            \<and> (\<forall>t. t \<noteq> s \<longrightarrow> scopes w1 t = scopes w t)
            \<and> fst (provide c v fn w) = Inr (fst (fn w1))
            \<and> log w3 = log w2 @ map MountRan (mounts (scopes w2 s))
            \<and> mounts (scopes w3 s) = [] \<and> mounted (scopes w3 s)
            \<and> contexts (scopes w3 s) = contexts (scopes w2 s)
            \<and> current w3 = Some s"
    using s by (simp add: provide_Some [OF s] Let_def fire_mounts_def emit_def)
next
  assume s: "current w = Some s"
  have 1: "current (snd (provide c v skip w)) = Some s"
    by (simp add: provide_Some [OF s] Let_def)
  show "contexts (scopes (snd (provide c v' skip (snd (provide c v skip w)))) s) c = Some v'"
    by (simp add: provide_Some [OF 1] Let_def skip_def fire_mounts_def emit_def)
qed

theorem provide_runs_current_scope_witness:
  "current prov_world = Some 0
   \<and> fst (provide 0 (Num 1) skip prov_world) = Inr ()
   \<and> log (snd (provide 0 (Num 1) skip prov_world)) = [MountRan 3]
   \<and> contexts (scopes (snd (provide 0 (Num 2) skip (snd (provide 0 (Num 1) skip prov_world)))) 0) 0
       = Some (Num 2)
   \<and> current (prov_world\<lparr>current := None\<rparr>) = None
   \<and> fst (provide 0 (Num 1) skip (prov_world\<lparr>current := None\<rparr>)) = Inl NoScope"
  using provide_runs_current_scope [of prov_world 0 "Num 1" skip 0 "Num 2"]
    provide_runs_current_scope [of "prov_world\<lparr>current := None\<rparr>" 0 "Num 1" skip 0 "Num 2"]
  by (simp add: prov_world_def empty_world_def empty_scope_def provide_def getScope_def
      Scope_run_def fire_mounts_def emit_def upd_scope_def skip_def Let_def)


text \<open>
  Claim C5 says that \<open>provide\<close> runs its body directly under the current scope,
  without going through \<open>run\<close>, so that it neither fires the pending mount callbacks
  nor changes \<open>mounted\<close>. The source ends \<open>provide\<close> with \<open>scope.run(fn)\<close> on the
  current scope, which is a scope whose own \<open>run\<close> has not returned yet. On a current
  scope that is not mounted and has one pending mount callback, \<open>provide\<close> with a
  body that does nothing fires the callback and sets \<open>mounted\<close>, and the scope is
  still the current one. In a root whose body calls \<open>onMount(3)\<close> and then builds a
  child that calls \<open>onMount(7)\<close>, nothing is fired while the body runs, and both
  callbacks fire when the root's \<open>run\<close> returns. With a \<open>provide\<close> between the two,
  both callbacks have fired before the body of the root has come to its end: the first
  within \<open>provide\<close>, the second at the end of the child's \<open>run\<close>, since the child
  finds its parent mounted and no longer hands the callback up.
\<close>

theorem provide_fires_mounts_early:
  "current prov_world = Some 0
   \<and> \<not> mounted (scopes prov_world 0) \<and> mounts (scopes prov_world 0) = [3] \<and> log prov_world = []
   \<and> log (snd (provide 0 (Num 1) skip prov_world)) = [MountRan 3]
   \<and> mounted (scopes (snd (provide 0 (Num 1) skip prov_world)) 0)
   \<and> mounts (scopes (snd (provide 0 (Num 1) skip prov_world)) 0) = []
   \<and> current (snd (provide 0 (Num 1) skip prov_world)) = Some 0
   \<and> log (snd (plain_body inside_root)) = []
   \<and> mounts (scopes (snd (plain_body inside_root)) 0) = [3, 7]
   \<and> log (snd (createRoot (\<lambda>dispose. plain_body) empty_world)) = [MountRan 3, MountRan 7]
   \<and> current (snd (providing_body inside_root)) = Some 0
   \<and> log (snd (providing_body inside_root)) = [MountRan 3, MountRan 7]
   \<and> log (snd (createRoot (\<lambda>dispose. providing_body) empty_world)) = [MountRan 3, MountRan 7]"
  by (simp add: prov_world_def empty_world_def empty_scope_def provide_def getScope_def
      Scope_run_def fire_mounts_def emit_def upd_scope_def skip_def Let_def
      plain_body_def providing_body_def inside_root_def in_child_def new_Scope_def
      register_mount_def onMount_def Scope_onMount.simps parent_of_def add_mount_def set_add_def
      createRoot_def)

section \<open>Properties of the signal sources\<close>

subsection \<open>Activation of an external source\<close>

lemma ext_set_frame:
  "ext_set v x = (x', es) \<Longrightarrow>
     ext_dispose x' = ext_dispose x \<and> ext_subscribers x' = ext_subscribers x
     \<and> es = (if resolve v (ext_currentValue x) \<noteq> ext_currentValue x
              then map Notified (ext_subscribers x) else [])"
  by (auto simp: ext_set_def Let_def split: if_splits)

lemma filter_Notified [simp]:
  "filter is_producer (map Notified cs) = []" "filter is_disposer (map Notified cs) = []"
  by (induction cs) auto

lemma ext_set_events:
  "ext_set v x = (x', es) \<Longrightarrow> filter is_producer es = [] \<and> filter is_disposer es = []"
  by (auto dest!: ext_set_frame split: if_splits)

lemma ext_sets_frame:
  "ext_sets vs x = (x', es) \<Longrightarrow>
     ext_dispose x' = ext_dispose x \<and> ext_subscribers x' = ext_subscribers x
     \<and> filter is_producer es = [] \<and> filter is_disposer es = []
     \<and> (ext_subscribers x = [] \<longrightarrow> es = [])"
proof (induction vs arbitrary: x x' es)
  case Nil
  then show ?case by simp
next
  case (Cons v vs)
  obtain x1 es1 where 1: "ext_set v x = (x1, es1)" by (cases "ext_set v x")
  obtain x2 es2 where 2: "ext_sets vs x1 = (x2, es2)" by (cases "ext_sets vs x1")
  from Cons.prems 1 2 have r: "x' = x2" "es = es1 @ es2" by simp_all
  from ext_set_frame [OF 1] ext_set_events [OF 1] Cons.IH [OF 2] r
  show ?case by (auto split: if_splits)
qed

lemma set_add_Nil [simp]: "set_add c [] = [c]"
  by (simp add: set_add_def)

lemma set_add_not_Nil [simp]: "set_add c cs \<noteq> []"
  by (auto simp: set_add_def)

lemma set_delete_Nil [simp]: "set_delete c [] = []"
  by (simp add: set_delete_def)

lemma length_set_add: "cs \<noteq> [] \<Longrightarrow> length (set_add c cs) = 1 \<Longrightarrow> length cs = 1"
  by (auto simp: set_add_def split: if_splits)

lemma ext_subscribe_step:
  assumes inv: "ext_inv x tr pending"
    and sub: "ext_subscribe pr cb x = (x', es)"
  shows "step_ok (x, tr, Subscribe pr cb, es, x') \<and> ext_inv x' (tr @ es) (cb # pending)"
proof (cases "ext_subscribers x = []")
  case True
  obtain x1 es1 where 1: "ext_sets (pushes pr) x = (x1, es1)" by (cases "ext_sets (pushes pr) x")
  from ext_sets_frame [OF 1] True have f: "ext_subscribers x1 = []" "es1 = []" by simp_all
  from sub True 1 f have r: "x' = x1\<lparr>ext_dispose := Some (returns pr), ext_subscribers := [cb]\<rparr>"
    "es = [ProducerCalled (returns pr)]"
    by (simp_all add: ext_subscribe_def Let_def)
  show ?thesis using True r
    by (simp add: step_ok_def ext_inv_def up_transition_def down_transition_def)
next
  case False
  with sub have r: "x' = x\<lparr>ext_subscribers := set_add cb (ext_subscribers x)\<rparr>" "es = []"
    by (simp_all add: ext_subscribe_def Let_def)
  show ?thesis using False r inv
    by (auto simp: step_ok_def ext_inv_def up_transition_def down_transition_def)
qed

lemma ext_unsubscribe_step:
  assumes inv: "ext_inv x tr pending" and mem: "cb \<in> set pending"
  shows "\<exists>x' es. ext_unsubscribe cb x = Inr (x', es)
           \<and> step_ok (x, tr, Unsubscribe cb, es, x') \<and> ext_inv x' (tr @ es) (remove1 cb pending)"
proof -
  from mem have "pending \<noteq> []" by auto
  with inv obtain d where d: "ext_dispose x = Some d"
    "filter is_producer tr \<noteq> []" "last (filter is_producer tr) = ProducerCalled d"
    by (auto simp: ext_inv_def)
  show ?thesis
  proof (cases "set_delete cb (ext_subscribers x) = []")
    case True
    then have "ext_unsubscribe cb x = Inr (x\<lparr>ext_subscribers := []\<rparr>, [DisposerCalled d])"
      using d(1) by (simp add: ext_unsubscribe_def Let_def)
    then show ?thesis using d
      by (simp add: step_ok_def ext_inv_def up_transition_def down_transition_def)
  next
    case False
    then have "ext_unsubscribe cb x
        = Inr (x\<lparr>ext_subscribers := set_delete cb (ext_subscribers x)\<rparr>, [])"
      by (simp add: ext_unsubscribe_def Let_def)
    then show ?thesis using d False
      by (auto simp: step_ok_def ext_inv_def up_transition_def down_transition_def)
  qed
qed

lemma ext_push_step:
  assumes inv: "ext_inv x tr pending" and p: "ext_set v x = (x', es)"
  shows "step_ok (x, tr, Push v, es, x') \<and> ext_inv x' (tr @ es) pending"
  using ext_set_frame [OF p] ext_set_events [OF p] inv
  by (auto simp: step_ok_def ext_inv_def up_transition_def down_transition_def)

lemma ext_steps_ok:
  "ext_inv x tr pending \<Longrightarrow> once_each pending ops \<Longrightarrow>
     length (ext_steps ops x tr) = length ops \<and> (\<forall>s \<in> set (ext_steps ops x tr). step_ok s)"
proof (induction ops arbitrary: x tr pending)
  case Nil
  then show ?case by simp
next
  case (Cons op ops)
  show ?case
  proof (cases op)
    case (Subscribe pr cb)
    obtain x' es where s: "ext_subscribe pr cb x = (x', es)" by (cases "ext_subscribe pr cb x")
    from ext_subscribe_step [OF Cons.prems(1) s] Cons.prems(2) Subscribe
    have "step_ok (x, tr, op, es, x')" "ext_inv x' (tr @ es) (cb # pending)" "once_each (cb # pending) ops"
      by simp_all
    with Cons.IH [of x' "tr @ es" "cb # pending"] s Subscribe show ?thesis by simp
  next
    case (Unsubscribe cb)
    with Cons.prems(2) have mem: "cb \<in> set pending" and rest: "once_each (remove1 cb pending) ops"
      by simp_all
    from ext_unsubscribe_step [OF Cons.prems(1) mem] obtain x' es where
      s: "ext_unsubscribe cb x = Inr (x', es)" "step_ok (x, tr, Unsubscribe cb, es, x')"
         "ext_inv x' (tr @ es) (remove1 cb pending)" by blast
    with Cons.IH [OF s(3) rest] Unsubscribe show ?thesis by simp
  next
    case (Push v)
    obtain x' es where s: "ext_set v x = (x', es)" by (cases "ext_set v x")
    from ext_push_step [OF Cons.prems(1) s] Cons.prems(2) Push
    have "step_ok (x, tr, op, es, x')" "ext_inv x' (tr @ es) pending" "once_each pending ops"
      by simp_all
    with Cons.IH [of x' "tr @ es" pending] s Push show ?thesis by simp
  qed
qed

text \<open>
  What holds of every history. Take any history of \<open>subscribe\<close> calls, calls of the
  functions they returned (each at most once) and calls of the setter, on a new
  external source. No call throws. A call that takes the subscriber count from 0 to 1 is a \<open>subscribe\<close>
  and calls the producer exactly once and no disposer; the producer is called in no
  other call. A call that takes the count from 1 to 0 calls exactly once the disposer
  that the latest call of the producer returned, and does not call the producer.
  Every \<open>subscribe\<close> that finds no subscriber, the first one and any one after a full
  drain, is such a 0-to-1 transition. A disposer is called by exactly the unsubscribe
  calls that leave the set of subscribers empty, whether or not they removed a
  subscriber: this is more often than the count goes from 1 to 0, see below.
\<close>

theorem external_producer_per_transition:
  assumes "once_each [] ops"
  shows "length (ext_steps ops (createExternal init) []) = length ops
   \<and> (\<forall>(x, tr, op, es, x') \<in> set (ext_steps ops (createExternal init) []).
        (up_transition x x' \<longrightarrow>
            (\<exists>pr cb. op = Subscribe pr cb \<and> filter is_producer es = [ProducerCalled (returns pr)])
            \<and> filter is_disposer es = [])
      \<and> (down_transition x x' \<longrightarrow>
            filter is_producer es = []
            \<and> (\<exists>d. filter is_disposer es = [DisposerCalled d]
                    \<and> last (filter is_producer tr) = ProducerCalled d))
      \<and> (\<not> up_transition x x' \<longrightarrow> filter is_producer es = [])
      \<and> (is_subscribe op \<and> ext_subscribers x = [] \<longrightarrow> up_transition x x')
      \<and> (filter is_disposer es \<noteq> []) = (is_unsubscribe op \<and> ext_subscribers x' = []))"
proof -
  have "ext_inv (createExternal init) [] []"
    by (simp add: ext_inv_def createExternal_def)
  from ext_steps_ok [OF this assms]
  show ?thesis by (fastforce simp: step_ok_def)
qed

theorem external_producer_per_transition_witness:
  "once_each [] drain_history
   \<and> length (ext_steps drain_history (createExternal (Num 0)) []) = 6
   \<and> events_of (ext_steps drain_history (createExternal (Num 0)) [])
       = [ProducerCalled 10, Notified 2, DisposerCalled 10, ProducerCalled 11]"
  using external_producer_per_transition [of drain_history "Num 0"]
  by (simp add: drain_history_def ticker_def ticker2_def createExternal_def ext_subscribe_def
      ext_unsubscribe_def ext_set_def set_add_def set_delete_def Let_def)

text \<open>
  Claim C6 says that, when every function returned by \<open>subscribe\<close> is called at
  most once, the disposer is called exactly once for each time the subscriber count
  goes from 1 to 0. The set of subscribers ignores a callback it holds already, and
  the function returned by \<open>subscribe\<close> calls \<open>dispose()\<close> whenever the set is empty
  after the deletion. So when one callback is subscribed twice and each of the two
  functions returned is called once, the producer is called once, the count goes from
  1 to 0 once, and the disposer is called twice: by the call that empties the set and
  by the second call, which finds the set empty and leaves it empty.
\<close>

theorem external_disposer_without_transition:
  "once_each [] twice_history
   \<and> events_of (ext_steps twice_history (createExternal (Num 0)) [])
       = [ProducerCalled 11, DisposerCalled 11, DisposerCalled 11]
   \<and> map (\<lambda>(x, tr, op, es, x'). (length (ext_subscribers x), es, length (ext_subscribers x')))
        (ext_steps twice_history (createExternal (Num 0)) [])
       = [(0, [ProducerCalled 11], 1), (1, [], 1), (1, [DisposerCalled 11], 0),
          (0, [DisposerCalled 11], 0)]
   \<and> length (filter (\<lambda>(x, tr, op, es, x'). down_transition x x')
        (ext_steps twice_history (createExternal (Num 0)) [])) = 1"
  by (simp add: twice_history_def ticker2_def createExternal_def ext_subscribe_def
      ext_unsubscribe_def set_add_def set_delete_def Let_def down_transition_def)


subsection \<open>Calling an unsubscribe function again\<close>

text \<open>
  For the stateful, the computed and the event-connection source a second call of the
  function returned by \<open>subscribe\<close>, made right after the first, changes nothing and
  runs nothing.
\<close>

lemma st_unsubscribe_idem:
  "st_unsubscribe cb (fst (st_unsubscribe cb st)) = st_unsubscribe cb st"
  by (simp add: st_unsubscribe_def set_delete_def)

lemma set_delete_idem [simp]: "set_delete c (set_delete c cs) = set_delete c cs"
  by (simp add: set_delete_def)

lemma cmp_unsubscribe_idem:
  "cmp_unsubscribe cb c = Inr (c1, es) \<Longrightarrow> cmp_unsubscribe cb c1 = Inr (c1, [])"
  by (auto simp: cmp_unsubscribe_def Let_def split: if_splits option.splits)

lemma con_unsubscribe_idem:
  "con_unsubscribe cb k = Inr (k1, es) \<Longrightarrow> con_unsubscribe cb k1 = Inr (k1, [])"
  by (auto simp: con_unsubscribe_def Let_def split: if_splits option.splits)

text \<open>
  Claim C3 says the same of the external source. There the function returned by
  \<open>subscribe\<close> calls \<open>dispose()\<close> whenever the set of subscribers is empty after the
  deletion, also when the call deleted nothing: subscribing once and calling the
  returned function twice calls the producer's disposer twice.
\<close>

theorem external_unsubscribe_twice_disposes_twice:
  "events_of (ext_steps [Subscribe ticker2 1, Unsubscribe 1, Unsubscribe 1] (createExternal (Num 0)) [])
     = [ProducerCalled 11, DisposerCalled 11, DisposerCalled 11]
   \<and> ext_unsubscribe 1 (fst (ext_subscribe ticker2 1 (createExternal (Num 0))))
     = Inr (\<lparr>ext_currentValue = Num 0, ext_dispose = Some 11, ext_subscribers = []\<rparr>, [DisposerCalled 11])
   \<and> ext_unsubscribe 1 \<lparr>ext_currentValue = Num 0, ext_dispose = Some 11, ext_subscribers = []\<rparr>
     = Inr (\<lparr>ext_currentValue = Num 0, ext_dispose = Some 11, ext_subscribers = []\<rparr>, [DisposerCalled 11])"
  by (simp add: ticker2_def createExternal_def ext_subscribe_def ext_unsubscribe_def
      set_add_def set_delete_def Let_def)

subsection \<open>No notification during \<open>subscribe\<close>\<close>

lemma ext_sets_silent:
  "ext_subscribers x = [] \<Longrightarrow> snd (ext_sets vs x) = []"
  using ext_sets_frame [of vs x "fst (ext_sets vs x)" "snd (ext_sets vs x)"] by simp

text \<open>
  Claim C9. For each of the four sources, in any state and for any callback, the call
  of \<open>subscribe\<close> calls no subscriber at all, so in particular not the callback being
  subscribed. For the external source this holds although the first \<open>subscribe\<close>
  starts the producer, whatever the producer pushes through the setter before it
  returns: the producer runs before the callback is added, while the set of
  subscribers is empty.
\<close>

theorem subscribe_never_notifies:
  "filter is_notified (snd (st_subscribe cb st)) = []
   \<and> log (sig_subscribe g cb w) = log w
   \<and> filter is_notified (snd (cmp_subscribe cb c)) = []
   \<and> filter is_notified (snd (con_subscribe ids cb k)) = []
   \<and> filter is_notified (snd (ext_subscribe pr cb x)) = []"
proof (intro conjI)
  show "filter is_notified (snd (st_subscribe cb st)) = []"
    by (simp add: st_subscribe_def)
  show "log (sig_subscribe g cb w) = log w"
    by (simp add: sig_subscribe_def st_subscribe_def emit_def)
  show "filter is_notified (snd (cmp_subscribe cb c)) = []"
    by (simp add: cmp_subscribe_def Let_def)
  have "filter is_notified (map (\<lambda>(i, h). Connected i h) ps) = []" for ps
    by (induction ps) auto
  then show "filter is_notified (snd (con_subscribe ids cb k)) = []"
    by (simp add: con_subscribe_def Let_def)
  show "filter is_notified (snd (ext_subscribe pr cb x)) = []"
    using ext_sets_silent [of x "pushes pr"]
    by (auto simp: ext_subscribe_def Let_def split: prod.splits)
qed

subsection \<open>\<open>get\<close> of a computed source\<close>

text \<open>Every \<open>get()\<close> of a computed source with a transform calls the transform once.\<close>

lemma slot_events: "slot ds i ch = (ch', a, es) \<Longrightarrow> filter is_transform es = []"
  by (auto simp: slot_def Let_def split: if_splits)

lemma slots_events: "slots ds ixs ch = (ch', as, es) \<Longrightarrow> filter is_transform es = []"
proof (induction ixs arbitrary: ch ch' as es)
  case Nil
  then show ?case by simp
next
  case (Cons i ixs)
  obtain ch1 a es1 where 1: "slot ds i ch = (ch1, a, es1)" by (cases "slot ds i ch")
  obtain ch2 as2 es2 where 2: "slots ds ixs ch1 = (ch2, as2, es2)" by (cases "slots ds ixs ch1")
  from Cons.prems 1 2 have "es = es1 @ es2" by simp
  with slot_events [OF 1] Cons.IH [OF 2] show ?case by simp
qed

lemma cmp_get_calls_transform:
  "length (filter is_transform (snd (snd (cmp_get (Some f) c)))) = 1"
proof -
  obtain ch as es where s: "slots (deps c) [0..<length (deps c)] (cache c) = (ch, as, es)"
    by (cases "slots (deps c) [0..<length (deps c)] (cache c)")
  with slots_events [OF s] show ?thesis
    by (simp add: cmp_get_def Let_def)
qed

text \<open>
  Claim C2 says that without subscribers every \<open>get()\<close> reads the dependencies
  afresh. \<open>get\<close> stores what it reads in \<open>cache\<close> whether or not there are
  subscribers, and reads a slot again only when the slot is falsy. With one dependency
  of value 1 and no subscriber: the first \<open>get()\<close> reads the dependency and calls the
  transform on 1; the dependency then changes to 5; the second \<open>get()\<close> does not read
  the dependency and calls the transform on 1 again.
\<close>

theorem computed_get_serves_stale_slot:
  "cmp_subscribers one_dep = []
   \<and> cmp_get (Some double) one_dep
       = (Inr (Num 2), one_dep\<lparr>cache := [Num 1]\<rparr>, [DepGet 0, TransformCalled [Num 1]])
   \<and> dep_set 0 (Num 5) (one_dep\<lparr>cache := [Num 1]\<rparr>)
       = (one_dep\<lparr>deps := [\<lparr>dep_value = Num 5, dep_listeners = []\<rparr>], cache := [Num 1]\<rparr>, [])
   \<and> cmp_get (Some double) (one_dep\<lparr>deps := [\<lparr>dep_value = Num 5, dep_listeners = []\<rparr>], cache := [Num 1]\<rparr>)
       = (Inr (Num 2), one_dep\<lparr>deps := [\<lparr>dep_value = Num 5, dep_listeners = []\<rparr>], cache := [Num 1]\<rparr>,
          [TransformCalled [Num 1]])"
  by (simp add: one_dep_def createComputed_def cmp_get_def slot_def arr_get_def arr_set_def
      dep_set_def Let_def)

text \<open>
  With a subscriber the listeners keep the cache current: the end-to-end example of a
  doubled counter set to 1 and then to 2.
\<close>

lemma end_to_end:
  "let c0 = createComputed [\<lparr>dep_value = Num 0, dep_listeners = []\<rparr>];
       (c1, e1) = cmp_subscribe 9 c0;
       (c2, e2) = dep_set 0 (Num 1) c1;
       (r2, c3, e3) = cmp_get (Some double) c2;
       (c4, e4) = dep_set 0 (Num 2) c3;
       (r4, c5, e5) = cmp_get (Some double) c4
   in filter is_notified e2 = [Notified 9] \<and> r2 = Inr (Num 2)
      \<and> filter is_notified e4 = [Notified 9] \<and> r4 = Inr (Num 4)"
  by (simp add: createComputed_def cmp_subscribe_def attach_def set_add_def dep_set_def
      listener_run_def cmp_get_def slot_def arr_get_def arr_set_def Let_def)

section \<open>Properties of the reconcilers\<close>

subsection \<open>The optional-value reconciler\<close>

lemmas with_eval = With_init_def With_cleanup_def With_callback_def getScope_def new_Scope_def Scope_run_def
  render_body1_def fire_mounts_def emit_def upd_scope_def onCleanup_def Scope_onCleanup_def
  set_add_def Scope_dispose_def addChild_def removeChild_def splice1_def Let_def
  maybe_label_def root_world_def empty_world_def empty_scope_def

text \<open>
  Claim C4 says that every pass disposes the current child scope. \<open>callback\<close> calls
  \<open>scope.dispose()\<close> inside its loop over the fragment's children, so a pass that
  finds no child mounted disposes nothing. Here the first pass renders nothing and
  registers cleanup 7 with its scope 1. The second pass creates scope 2 and mounts its
  output, and nothing is disposed: scope 1 keeps its cleanup, which has not run. The
  third pass finds a child mounted and disposes scope 2. The cleanup that \<open>With\<close>
  registered with its owner (closure 21) disposes the scope of the last pass only:
  scope 1 is never disposed.
\<close>

theorem with_skips_dispose_when_empty:
  "(case With_init maybe_label (Num 0) 20 21 root_world of
      Inl e \<Rightarrow> False
    | Inr (st1, w1) \<Rightarrow>
        scope1 st1 = Some 1 \<and> fragment1 st1 = [] \<and> cleanups (scopes w1 1) = [7]
        \<and> cleanups (scopes w1 0) = [21]
        \<and> (case With_callback maybe_label (Num 1) st1 w1 of
              Inl e \<Rightarrow> False
            | Inr (st2, w2) \<Rightarrow>
                scope1 st2 = Some 2 \<and> fragment1 st2 = [Widget 2]
                \<and> filter is_disposed (log w2) = []
                \<and> cleanups (scopes w2 1) = [7] \<and> parent (scopes w2 1) = Some 0
                \<and> (case With_callback maybe_label (Num 0) st2 w2 of
                      Inl e \<Rightarrow> False
                    | Inr (st3, w3) \<Rightarrow>
                        filter is_disposed (log w3) = [ScopeDisposed 2, CleanupRan 8]
                        \<and> cleanups (scopes w3 1) = [7]
                        \<and> (case With_cleanup 20 st3 w3 of
                              Inl e \<Rightarrow> False
                            | Inr w4 \<Rightarrow>
                                filter is_scope_disposed (log w4) = [ScopeDisposed 2, ScopeDisposed 3]
                                \<and> cleanups (scopes w4 1) = [7]))))"
  by (simp add: with_eval)

subsection \<open>The collection reconciler\<close>

subsection \<open>Fragments\<close>

lemma findIndex_mem: "(findIndex c cs > - 1) = (c \<in> set cs)"
  by (induction cs) (auto simp: Let_def)

lemma findIndex_ge: "findIndex c cs \<ge> - 1"
  by (induction cs) (auto simp: Let_def)

lemma hasChild_iff: "hasChild c cs = (c \<in> set cs)"
  by (simp add: hasChild_def findIndex_mem)

lemma findIndex_remove1:
  "c \<in> set cs \<Longrightarrow> 0 \<le> findIndex c cs \<and> nat (findIndex c cs) < length cs
     \<and> take (nat (findIndex c cs)) cs @ drop (Suc (nat (findIndex c cs))) cs = remove1 c cs"
proof (induction cs)
  case Nil
  then show ?case by simp
next
  case (Cons x xs)
  show ?case
  proof (cases "x = c")
    case True
    then show ?thesis by simp
  next
    case False
    with Cons.prems have mem: "c \<in> set xs" by simp
    from Cons.IH [OF mem] have ih: "0 \<le> findIndex c xs" "nat (findIndex c xs) < length xs"
      "take (nat (findIndex c xs)) xs @ drop (Suc (nat (findIndex c xs))) xs = remove1 c xs"
      by simp_all
    have n: "nat (findIndex c xs + 1) = Suc (nat (findIndex c xs))"
      using ih(1) by simp
    show ?thesis using False ih n by (simp add: Let_def)
  qed
qed

lemma removeChild_mem:
  "c \<in> set cs \<Longrightarrow> removeChild c cs = (remove1 c cs, [ChildRemoved c (findIndex c cs)])"
  using findIndex_remove1 [of c cs]
  by (simp add: removeChild_def splice1_def Let_def min_def)

lemma addChild_widget:
  "addChild (Widget a) (- 1) cs = Inr (cs @ [Widget a], [ChildAdded (Widget a) (length cs)])"
  by (simp add: addChild_def)

subsection \<open>What the primitives leave alone\<close>

lemma emit_fields [simp]:
  "scopes (emit es w) = scopes w" "nscopes (emit es w) = nscopes w"
  "current (emit es w) = current w" "sigs (emit es w) = sigs w"
  "nsigs (emit es w) = nsigs w" "log (emit es w) = log w @ es"
  by (simp_all add: emit_def)

lemma Scope_dispose_fields [simp]:
  "nscopes (Scope_dispose s w) = nscopes w" "current (Scope_dispose s w) = current w"
  "sigs (Scope_dispose s w) = sigs w" "nsigs (Scope_dispose s w) = nsigs w"
  "log (Scope_dispose s w) = log w @ ScopeDisposed s # map CleanupRan (cleanups (scopes w s))"
  by (simp_all add: Scope_dispose_def)

lemma sig_get_emit [simp]: "sig_get g (emit es w) = sig_get g w"
  by (simp add: sig_get_def)

lemma filter_CleanupRan [simp]:
  "filter is_scope_disposed (map CleanupRan cs) = []" "filter is_teardown (map CleanupRan cs) = []"
  "filter is_render (map CleanupRan cs) = []" "filter is_warn (map CleanupRan cs) = []"
  "filter is_added (map CleanupRan cs) = []"
  by (induction cs) auto

lemma For_remove_fields:
  "nscopes (For_remove cl mi w) = nscopes w" "sigs (For_remove cl mi w) = sigs w"
  "nsigs (For_remove cl mi w) = nsigs w" "current (For_remove cl mi w) = current w"
  by (cases cl; simp add: For_remove_def)+

lemma For_remove_log:
  "\<exists>ev. log (For_remove cl mi w) = log w @ ev
     \<and> filter is_scope_disposed ev = [ScopeDisposed (scope mi)]
     \<and> filter is_teardown ev = teardown_of cl w mi
     \<and> filter is_render ev = [] \<and> filter is_warn ev = [] \<and> filter is_added ev = []"
  by (cases cl) (simp_all add: For_remove_def)

subsection \<open>The first loop\<close>

lemma sweep_spec:
  assumes "distinct frag" "(\<lambda>(k, mi). child mi) ` set m \<subseteq> set frag"
    "distinct (map (\<lambda>(k, mi). child mi) m)"
  shows "\<exists>w' ev. sweep cl ids m frag w
            = (filter (\<lambda>(k, mi). k \<in> set ids) m,
               filter (\<lambda>c. c \<notin> (\<lambda>(k, mi). child mi) ` set m) frag, w')
         \<and> nscopes w' = nscopes w \<and> sigs w' = sigs w \<and> nsigs w' = nsigs w \<and> current w' = current w
         \<and> log w' = log w @ ev
         \<and> filter is_scope_disposed ev = map (\<lambda>mi. ScopeDisposed (scope mi)) (removed ids m)
         \<and> filter is_teardown ev = concat (map (teardown_of cl w) (removed ids m))
         \<and> filter is_render ev = [] \<and> filter is_warn ev = [] \<and> filter is_added ev = []"
  using assms
proof (induction m arbitrary: frag w)
  case Nil
  then show ?case by (simp add: removed_def)
next
  case (Cons e m)
  obtain key mi where e: "e = (key, mi)" by (cases e)
  from Cons.prems e have mem: "child mi \<in> set frag" by auto
  let ?frag1 = "remove1 (child mi) frag"
  have rc: "removeChild (child mi) frag = (?frag1, [ChildRemoved (child mi) (findIndex (child mi) frag)])"
    by (rule removeChild_mem [OF mem])
  have d1: "distinct ?frag1" using Cons.prems(1) by simp
  have notin: "child mi \<notin> (\<lambda>(k, mi). child mi) ` set m"
    using Cons.prems(3) e by (auto simp: image_iff)
  have sub1: "(\<lambda>(k, mi). child mi) ` set m \<subseteq> set ?frag1"
  proof
    fix c assume c: "c \<in> (\<lambda>(k, mi). child mi) ` set m"
    with Cons.prems(2) have "c \<in> set frag" by auto
    moreover from c notin have "c \<noteq> child mi" by blast
    ultimately show "c \<in> set ?frag1" using Cons.prems(1) by simp
  qed
  have d2: "distinct (map (\<lambda>(k, mi). child mi) m)" using Cons.prems(3) by simp
  have fr: "filter (\<lambda>c. c \<notin> (\<lambda>(k, mi). child mi) ` set m) ?frag1
          = filter (\<lambda>c. c \<notin> (\<lambda>(k, mi). child mi) ` set (e # m)) frag"
  proof -
    have "remove1 (child mi) frag = filter (\<lambda>c. c \<noteq> child mi) frag"
      using Cons.prems(1) by (simp add: distinct_remove1_removeAll removeAll_filter_not_eq) metis
    then show ?thesis using e by (auto intro: filter_cong)
  qed
  let ?w1 = "emit [ChildRemoved (child mi) (findIndex (child mi) frag)] w"
  show ?case
  proof (cases "key \<in> set ids")
    case True
    from Cons.IH [OF d1 sub1 d2, of ?w1] obtain w' ev where
      ih: "sweep cl ids m ?frag1 ?w1
            = (filter (\<lambda>(k, mi). k \<in> set ids) m,
               filter (\<lambda>c. c \<notin> (\<lambda>(k, mi). child mi) ` set m) ?frag1, w')"
         "nscopes w' = nscopes ?w1" "sigs w' = sigs ?w1" "nsigs w' = nsigs ?w1" "current w' = current ?w1"
         "log w' = log ?w1 @ ev"
         "filter is_scope_disposed ev = map (\<lambda>mi. ScopeDisposed (scope mi)) (removed ids m)"
         "filter is_teardown ev = concat (map (teardown_of cl ?w1) (removed ids m))"
         "filter is_render ev = []" "filter is_warn ev = []" "filter is_added ev = []"
      by blast
    have t: "teardown_of cl ?w1 = teardown_of cl w"
      by (rule ext, cases cl) simp_all
    show ?thesis
      apply (rule exI [of _ w'])
      apply (rule exI [of _ "ChildRemoved (child mi) (findIndex (child mi) frag) # ev"])
      using True e rc ih fr t by (simp add: removed_def)
  next
    case False
    let ?w2 = "For_remove cl mi ?w1"
    from For_remove_log [of cl mi ?w1] obtain ev1 where
      l1: "log ?w2 = log ?w1 @ ev1" "filter is_scope_disposed ev1 = [ScopeDisposed (scope mi)]"
        "filter is_teardown ev1 = teardown_of cl ?w1 mi"
        "filter is_render ev1 = []" "filter is_warn ev1 = []" "filter is_added ev1 = []"
      by blast
    from Cons.IH [OF d1 sub1 d2, of ?w2] obtain w' ev where
      ih: "sweep cl ids m ?frag1 ?w2
            = (filter (\<lambda>(k, mi). k \<in> set ids) m,
               filter (\<lambda>c. c \<notin> (\<lambda>(k, mi). child mi) ` set m) ?frag1, w')"
         "nscopes w' = nscopes ?w2" "sigs w' = sigs ?w2" "nsigs w' = nsigs ?w2" "current w' = current ?w2"
         "log w' = log ?w2 @ ev"
         "filter is_scope_disposed ev = map (\<lambda>mi. ScopeDisposed (scope mi)) (removed ids m)"
         "filter is_teardown ev = concat (map (teardown_of cl ?w2) (removed ids m))"
         "filter is_render ev = []" "filter is_warn ev = []" "filter is_added ev = []"
      by blast
    have t: "teardown_of cl ?w2 = teardown_of cl w" "teardown_of cl ?w1 = teardown_of cl w"
      by (rule ext, cases cl, simp_all add: sig_get_def For_remove_fields)+
    show ?thesis
      apply (rule exI [of _ w'])
      apply (rule exI [of _ "ChildRemoved (child mi) (findIndex (child mi) frag) # ev1 @ ev"])
      using False e rc ih fr t l1 by (simp add: removed_def For_remove_fields)
  qed
qed

lemma same_frame_refl [simp]: "same_frame w w"
  by (simp add: same_frame_def)

lemma same_frame_trans: "same_frame w w1 \<Longrightarrow> same_frame w1 w2 \<Longrightarrow> same_frame w w2"
  by (simp add: same_frame_def)

lemma add_mount_frame: "same_frame w (add_mount t cb w)"
  by (simp add: same_frame_def add_mount_def)

lemma Scope_onMount_frame: "same_frame w (Scope_onMount s cb w)"
  using onMount_target [of w s cb] by (auto simp: add_mount_frame)

lemma onMount_frame: "current w \<noteq> None \<Longrightarrow> same_frame w (onMount cb w)"
  by (auto simp: onMount_def Scope_onMount_frame)

lemma onCleanup_frame: "current w \<noteq> None \<Longrightarrow> same_frame w (onCleanup cb w)"
  by (auto simp: onCleanup_def Scope_onCleanup_def same_frame_def)

lemma sig_subscribe_frame: "same_frame w (sig_subscribe g cb w)"
  by (simp add: sig_subscribe_def st_subscribe_def same_frame_def emit_def)

lemma fold_frame:
  assumes "\<And>cb w. current w \<noteq> None \<Longrightarrow> same_frame w (f cb w)"
  shows "current w \<noteq> None \<Longrightarrow> same_frame w (fold f cbs w)"
proof (induction cbs arbitrary: w)
  case Nil
  then show ?case by simp
next
  case (Cons cb cbs)
  from assms [OF Cons.prems] have 1: "same_frame w (f cb w)" .
  then have "current (f cb w) \<noteq> None" using Cons.prems by (simp add: same_frame_def)
  from Cons.IH [OF this] 1 show ?case by (auto intro: same_frame_trans)
qed

lemma render_body_frame:
  assumes "current w \<noteq> None"
  shows "fst (render_body it g s r w) = out r"
    and "same_frame (emit [RenderCalled it g s] w) (snd (render_body it g s r w))"
proof -
  let ?w0 = "emit [RenderCalled it g s] w"
  have c0: "current ?w0 \<noteq> None" using assms by simp
  have 1: "same_frame ?w0 (fold onCleanup (reg_cleanups r) ?w0)"
    by (rule fold_frame [OF onCleanup_frame c0])
  then have c1: "current (fold onCleanup (reg_cleanups r) ?w0) \<noteq> None"
    using c0 by (simp add: same_frame_def)
  have 2: "same_frame (fold onCleanup (reg_cleanups r) ?w0)
             (fold onMount (reg_mounts r) (fold onCleanup (reg_cleanups r) ?w0))"
    by (rule fold_frame [OF onMount_frame c1])
  then have c2: "current (fold onMount (reg_mounts r) (fold onCleanup (reg_cleanups r) ?w0)) \<noteq> None"
    using c1 by (simp add: same_frame_def)
  have 3: "same_frame (fold onMount (reg_mounts r) (fold onCleanup (reg_cleanups r) ?w0))
             (fold (sig_subscribe g) (reg_index r)
               (fold onMount (reg_mounts r) (fold onCleanup (reg_cleanups r) ?w0)))"
    by (rule fold_frame [OF sig_subscribe_frame c2])
  show "fst (render_body it g s r w) = out r" by (simp add: render_body_def)
  show "same_frame ?w0 (snd (render_body it g s r w))"
    using same_frame_trans [OF same_frame_trans [OF 1 2] 3] by (simp add: render_body_def)
qed

lemma filter_MountRan [simp]:
  "filter is_scope_disposed (map MountRan cs) = []" "filter is_teardown (map MountRan cs) = []"
  "filter is_render (map MountRan cs) = []" "filter is_warn (map MountRan cs) = []"
  "filter is_added (map MountRan cs) = []"
  by (induction cs) auto

lemma filter_Notified2 [simp]:
  "filter is_scope_disposed (map Notified cs) = []" "filter is_teardown (map Notified cs) = []"
  "filter is_render (map Notified cs) = []" "filter is_warn (map Notified cs) = []"
  "filter is_added (map Notified cs) = []"
  by (induction cs) auto

lemma make_child_spec:
  "\<exists>w' ms. make_child P cs it i w
       = (\<lparr>item = it, child = out (mkChild P it (nsigs w) (nscopes w)),
           index = nsigs w, scope = nscopes w\<rparr>, w')
     \<and> nscopes w' = Suc (nscopes w) \<and> nsigs w' = Suc (nsigs w) \<and> current w' = current w
     \<and> parent (scopes w' (nscopes w)) = Some cs
     \<and> (\<forall>s. s \<noteq> nscopes w \<longrightarrow> parent (scopes w' s) = parent (scopes w s))
     \<and> currentValue (sigs w' (nsigs w)) = Num (int i)
     \<and> (\<forall>g. g \<noteq> nsigs w \<longrightarrow> currentValue (sigs w' g) = currentValue (sigs w g))
     \<and> log w' = log w @ RenderCalled it (nsigs w) (nscopes w) # map MountRan ms"
proof -
  let ?g = "nsigs w" and ?s = "nscopes w"
  let ?w1 = "snd (createState (Num (int i)) w)"
  let ?w2 = "snd (new_Scope (Some cs) ?w1)"
  let ?wi = "?w2\<lparr>current := Some ?s\<rparr>"
  let ?r = "mkChild P it ?g ?s"
  let ?w3 = "snd (render_body it ?g ?s ?r ?wi)"
  have cur: "current ?wi \<noteq> None" by simp
  note rb = render_body_frame [OF cur, of it ?g ?s ?r]
  from rb(2) have f: "nscopes ?w3 = nscopes ?wi" "nsigs ?w3 = nsigs ?wi"
    "log ?w3 = log ?wi @ [RenderCalled it ?g ?s]"
    "\<And>s. parent (scopes ?w3 s) = parent (scopes ?wi s)"
    "\<And>g. currentValue (sigs ?w3 g) = currentValue (sigs ?wi g)"
    by (simp_all add: same_frame_def)
  have mk: "make_child P cs it i w
      = (\<lparr>item = it, child = out ?r, index = ?g, scope = ?s\<rparr>,
         (fire_mounts ?s ?w3)\<lparr>current := current w\<rparr>)"
    using rb(1)
    by (simp add: make_child_def createState_def new_Scope_def Scope_run_def Let_def
        case_prod_beta)
  show ?thesis
    apply (rule exI [of _ "(fire_mounts ?s ?w3)\<lparr>current := current w\<rparr>"])
    apply (rule exI [of _ "mounts (scopes ?w3 ?s)"])
    using f by (simp add: mk fire_mounts_def createState_def new_Scope_def)
qed

lemma sig_set_spec:
  "\<exists>cs. log (sig_set g a w) = log w @ map Notified cs"
  "scopes (sig_set g a w) = scopes w" "nscopes (sig_set g a w) = nscopes w"
  "nsigs (sig_set g a w) = nsigs w" "current (sig_set g a w) = current w"
  "currentValue (sigs (sig_set g a w) g) = resolve a (currentValue (sigs w g))"
  "g' \<noteq> g \<Longrightarrow> sigs (sig_set g a w) g' = sigs w g'"
  by (auto simp: sig_set_def st_set_def Let_def)

lemma entries_ok_mono:
  "entries_ok P m w \<Longrightarrow> nscopes w \<le> nscopes w' \<Longrightarrow> nsigs w \<le> nsigs w' \<Longrightarrow> entries_ok P m w'"
  by (fastforce simp: entries_ok_def)

lemma entries_ok_mem:
  "entries_ok P m w \<Longrightarrow> map_of m k = Some mi \<Longrightarrow>
     (k, mi) \<in> set m \<and> scope mi < nscopes w \<and> index mi < nsigs w
     \<and> child mi = out (mkChild P (item mi) (index mi) (scope mi))"
  by (auto simp: entries_ok_def dest: map_of_SomeD)

lemma entries_child_inj:
  "entries_ok P m w \<Longrightarrow> (k, mi) \<in> set m \<Longrightarrow> (k', mi') \<in> set m \<Longrightarrow> child mi = child mi'
     \<Longrightarrow> k = k' \<and> mi = mi'"
proof -
  assume a: "entries_ok P m w" "(k, mi) \<in> set m" "(k', mi') \<in> set m" "child mi = child mi'"
  from a(1) have d: "distinct (map (\<lambda>(k, mi). child mi) m)" by (simp add: entries_ok_def)
  have "inj_on (\<lambda>(k, mi). child mi) (set m)" using d by (simp add: distinct_map)
  from inj_onD [OF this _ a(2,3)] a(4) show ?thesis by auto
qed

lemma added_children_append [simp]:
  "added_children (a @ b) = added_children a @ added_children b"
  by (induction a rule: added_children.induct) auto

lemma added_children_map [simp]:
  "added_children (map Notified cs) = []" "added_children (map MountRan cs) = []"
  by (induction cs) auto

lemma placed_snoc_old:
  assumes ok: "entries_ok P m w" and mi: "map_of m k = Some mi"
  shows "placed m (frag @ [child mi]) = insert k (placed m frag)"
proof -
  from entries_ok_mem [OF ok mi] have mem: "(k, mi) \<in> set m" by simp
  have "k' = k" if "map_of m k' = Some mi'" "child mi' = child mi" for k' mi'
  proof -
    from that(1) have "(k', mi') \<in> set m" by (rule map_of_SomeD)
    from entries_child_inj [OF ok this mem that(2)] show ?thesis by simp
  qed
  then have inj: "\<And>k' mi'. map_of m k' = Some mi' \<Longrightarrow> child mi' = child mi \<Longrightarrow> k' = k" .
  show ?thesis
    unfolding placed_def
  proof (intro set_eqI iffI)
    fix x assume "x \<in> {x. \<exists>mi'. map_of m x = Some mi' \<and> child mi' \<in> set (frag @ [child mi])}"
    then obtain mi' where m: "map_of m x = Some mi'" "child mi' = child mi \<or> child mi' \<in> set frag"
      by auto
    from m(2) show "x \<in> insert k {x. \<exists>mi'. map_of m x = Some mi' \<and> child mi' \<in> set frag}"
    proof
      assume "child mi' = child mi"
      from inj [OF m(1) this] show ?thesis by simp
    next
      assume "child mi' \<in> set frag"
      with m(1) show ?thesis by blast
    qed
  next
    fix x assume "x \<in> insert k {x. \<exists>mi'. map_of m x = Some mi' \<and> child mi' \<in> set frag}"
    then consider "x = k" | mi' where "map_of m x = Some mi'" "child mi' \<in> set frag" by blast
    then show "x \<in> {x. \<exists>mi'. map_of m x = Some mi' \<and> child mi' \<in> set (frag @ [child mi])}"
    proof cases
      case 1
      with mi show ?thesis by simp
    next
      case 2
      then show ?thesis by simp
    qed
  qed
qed

lemma entries_ok_snoc:
  assumes ok: "entries_ok P m w" and fr: "fresh_outputs P" and none: "map_of m k = None"
    and w': "nscopes w' = Suc (nscopes w)" "nsigs w' = Suc (nsigs w)"
  shows "entries_ok P
           (m @ [(k, \<lparr>item = it, child = out (mkChild P it (nsigs w) (nscopes w)),
                      index = nsigs w, scope = nscopes w\<rparr>)]) w'"
    and "out (mkChild P it (nsigs w) (nscopes w)) \<notin> (\<lambda>(k, mi). child mi) ` set m"
proof -
  let ?c = "out (mkChild P it (nsigs w) (nscopes w))"
  from ok have b0: "\<forall>(k, mi) \<in> set m. scope mi < nscopes w \<and> index mi < nsigs w
      \<and> child mi = out (mkChild P (item mi) (index mi) (scope mi))"
    unfolding entries_ok_def by (elim conjE)
  have b: "scope mi' < nscopes w \<and> index mi' < nsigs w
      \<and> child mi' = out (mkChild P (item mi') (index mi') (scope mi'))" if "(k', mi') \<in> set m" for k' mi'
    using bspec [OF b0 that] by simp
  show notin: "?c \<notin> (\<lambda>(k, mi). child mi) ` set m"
  proof
    assume "?c \<in> (\<lambda>(k, mi). child mi) ` set m"
    then obtain k' mi' where m: "(k', mi') \<in> set m" "child mi' = ?c" by auto
    from b [OF m(1)] m(2) have "out (mkChild P (item mi') (index mi') (scope mi')) = ?c" by simp
    with fr have "scope mi' = nscopes w" by (auto simp: fresh_outputs_def)
    with b [OF m(1)] show False by simp
  qed
  have k: "k \<notin> fst ` set m" using none by (simp add: map_of_eq_None_iff)
  have s: "nscopes w \<notin> (\<lambda>(k, mi). scope mi) ` set m"
  proof
    assume "nscopes w \<in> (\<lambda>(k, mi). scope mi) ` set m"
    then obtain k' mi' where "(k', mi') \<in> set m" "scope mi' = nscopes w" by auto
    with b [of k' mi'] show False by simp
  qed
  have g: "nsigs w \<notin> (\<lambda>(k, mi). index mi) ` set m"
  proof
    assume "nsigs w \<in> (\<lambda>(k, mi). index mi) ` set m"
    then obtain k' mi' where "(k', mi') \<in> set m" "index mi' = nsigs w" by auto
    with b [of k' mi'] show False by simp
  qed
  let ?mi = "\<lparr>item = it, child = ?c, index = nsigs w, scope = nscopes w\<rparr>"
  from ok have d: "distinct (map fst m)" "distinct (map (\<lambda>(k, mi). child mi) m)"
    "distinct (map (\<lambda>(k, mi). scope mi) m)" "distinct (map (\<lambda>(k, mi). index mi) m)"
    by (simp_all add: entries_ok_def)
  have 1: "distinct (map fst (m @ [(k, ?mi)]))" using d(1) k by simp
  have 2: "distinct (map (\<lambda>(k, mi). child mi) (m @ [(k, ?mi)]))" using d(2) notin by simp
  have 3: "distinct (map (\<lambda>(k, mi). scope mi) (m @ [(k, ?mi)]))" using d(3) s by simp
  have 4: "distinct (map (\<lambda>(k, mi). index mi) (m @ [(k, ?mi)]))" using d(4) g by simp
  have 5: "\<forall>(k', mi') \<in> set (m @ [(k, ?mi)]).
      scope mi' < nscopes w' \<and> index mi' < nsigs w'
      \<and> child mi' = out (mkChild P (item mi') (index mi') (scope mi'))"
  proof (clarify)
    fix k' mi' assume "(k', mi') \<in> set (m @ [(k, ?mi)])"
    then consider "(k', mi') \<in> set m" | "mi' = ?mi" by auto
    then show "scope mi' < nscopes w' \<and> index mi' < nsigs w'
      \<and> child mi' = out (mkChild P (item mi') (index mi') (scope mi'))"
    proof cases
      case 1
      from b [OF 1] w' show ?thesis by simp
    next
      case 2
      then show ?thesis using w' by simp
    qed
  qed
  show "entries_ok P (m @ [(k, ?mi)]) w'"
    unfolding entries_ok_def using 1 2 3 4 5 by blast
qed

lemma placed_snoc_new:
  assumes ok: "entries_ok P m w" and none: "map_of m k = None"
    and notin: "child mi \<notin> (\<lambda>(k, mi). child mi) ` set m"
  shows "placed (m @ [(k, mi)]) (frag @ [child mi]) = insert k (placed m frag)"
proof -
  have a: "map_of (m @ [(k, mi)]) k' = (if k' = k then Some mi else map_of m k')" for k'
    using none by (auto simp: map_of_append map_add_def split: option.splits)
  have b: "child mi' \<noteq> child mi" if "map_of m k' = Some mi'" for k' mi'
    using map_of_SomeD [OF that] notin by force
  show ?thesis
    unfolding placed_def
  proof (intro set_eqI iffI)
    fix k' assume "k' \<in> {x. \<exists>mi'. map_of (m @ [(k, mi)]) x = Some mi' \<and> child mi' \<in> set (frag @ [child mi])}"
    then obtain mi' where m: "map_of (m @ [(k, mi)]) k' = Some mi'" "child mi' \<in> set (frag @ [child mi])"
      by blast
    show "k' \<in> insert k {x. \<exists>mi. map_of m x = Some mi \<and> child mi \<in> set frag}"
    proof (cases "k' = k")
      case True
      then show ?thesis by simp
    next
      case False
      with m(1) a [of k'] have 1: "map_of m k' = Some mi'" by simp
      with b [OF 1] m(2) show ?thesis by auto
    qed
  next
    fix k' assume "k' \<in> insert k {x. \<exists>mi. map_of m x = Some mi \<and> child mi \<in> set frag}"
    then consider "k' = k" | mi' where "k' \<noteq> k" "map_of m k' = Some mi'" "child mi' \<in> set frag"
      using none by auto
    then show "k' \<in> {x. \<exists>mi'. map_of (m @ [(k, mi)]) x = Some mi' \<and> child mi' \<in> set (frag @ [child mi])}"
    proof cases
      case 1
      have "map_of (m @ [(k, mi)]) k' = Some mi" using 1 a [of k'] by simp
      then show ?thesis by auto
    next
      case 2
      have "map_of (m @ [(k, mi)]) k' = Some mi'" using 2 a [of k'] by simp
      with 2 show ?thesis by auto
    qed
  qed
qed

lemma place_postI:
  assumes "m' = m @ new"
    and "map fst new = fresh_firsts (keys_of P its) (fst ` set m)"
    and "frag' = frag @ added"
    and "map Some added = map (child_of m') (fresh_firsts (keys_of P its) (placed m frag))"
    and "placed m' frag' = placed m frag \<union> set (keys_of P its)"
    and "nscopes w' = nscopes w + length new" and "nsigs w' = nsigs w + length new"
    and "\<forall>(k, mi) \<in> set new.
                nscopes w \<le> scope mi \<and> nsigs w \<le> index mi
                \<and> parent (scopes w' (scope mi)) = Some cs
                \<and> first_item P k its = Some (item mi)"
    and "\<forall>s. s < nscopes w \<longrightarrow> parent (scopes w' s) = parent (scopes w s)"
    and "\<forall>(k, mi) \<in> set m'.
                sig_get (index mi) w'
                  = (if positions P k its = [] then sig_get (index mi) w
                     else Num (int (last (positions P k its))))"
    and "log w' = log w @ ev"
    and "filter is_scope_disposed ev = []" and "filter is_teardown ev = []"
    and "filter is_render ev = map (\<lambda>(k, mi). render_of mi) new"
    and "filter is_warn ev = map ConsoleWarn (repeats (keys_of P its) (placed m frag))"
    and "added_children ev = added"
  shows "place_post P cs its (m, frag, w) (m', frag', w')"
  unfolding place_post_def prod.case
  apply (rule exI [of _ new])
  apply (rule exI [of _ added])
  apply (rule exI [of _ ev])
  using assms by (intro conjI)

lemma fresh_widget: "fresh_outputs P \<Longrightarrow> \<exists>a. out (mkChild P it g s) = Widget a"
  unfolding fresh_outputs_def by blast

lemma entries_key_unique:
  "entries_ok P m w \<Longrightarrow> map_of m k = Some mi \<Longrightarrow> (k, mi') \<in> set m \<Longrightarrow> mi' = mi"
proof -
  assume a: "entries_ok P m w" "map_of m k = Some mi" "(k, mi') \<in> set m"
  from a(1) have "distinct (map fst m)" unfolding entries_ok_def by (elim conjE)
  from map_of_is_SomeI [OF this a(3)] a(2) show ?thesis by simp
qed

lemma entries_index_inj:
  "entries_ok P m w \<Longrightarrow> (k, mi) \<in> set m \<Longrightarrow> (k', mi') \<in> set m \<Longrightarrow> index mi = index mi'
     \<Longrightarrow> k = k' \<and> mi = mi'"
proof -
  assume a: "entries_ok P m w" "(k, mi) \<in> set m" "(k', mi') \<in> set m" "index mi = index mi'"
  from a(1) have d: "distinct (map (\<lambda>(k, mi). index mi) m)" unfolding entries_ok_def by (elim conjE)
  have "inj_on (\<lambda>(k, mi). index mi) (set m)" using d by (simp add: distinct_map)
  from inj_onD [OF this _ a(2,3)] a(4) show ?thesis by auto
qed

lemma positions_single:
  "positions P k' [(it, i)] = (if id_prop P it = k' then [i] else [])"
  by (simp add: positions_def)

lemma existing_sig_values:
  assumes ok: "entries_ok P m w" and mi: "map_of m (id_prop P it) = Some mi"
    and w1: "w1 = sig_set (index mi) (SetValue (Num (int i))) w"
    and w2: "sigs w2 = sigs w1"
  shows "\<forall>(k', mi') \<in> set m.
           sig_get (index mi') w2
             = (if positions P k' [(it, i)] = [] then sig_get (index mi') w
                else Num (int (last (positions P k' [(it, i)]))))"
proof (clarify)
  fix k' mi' assume m': "(k', mi') \<in> set m"
  from entries_ok_mem [OF ok mi] have mem: "(id_prop P it, mi) \<in> set m" by simp
  show "sig_get (index mi') w2
             = (if positions P k' [(it, i)] = [] then sig_get (index mi') w
                else Num (int (last (positions P k' [(it, i)]))))"
  proof (cases "id_prop P it = k'")
    case True
    with entries_key_unique [OF ok mi] m' have "mi' = mi" by simp
    then show ?thesis using True w1 w2 by (simp add: positions_single sig_get_def sig_set_spec)
  next
    case False
    with entries_index_inj [OF ok mem m'] have "index mi' \<noteq> index mi" by auto
    then show ?thesis using False w1 w2 by (simp add: positions_single sig_get_def sig_set_spec)
  qed
qed

lemma place_item_step:
  assumes fr: "fresh_outputs P" and inv: "place_inv P (m, frag, w)"
  shows "\<exists>st1. place_item P cs (it, i) (m, frag, w) = Inr st1 \<and> place_inv P st1
           \<and> place_post P cs [(it, i)] (m, frag, w) st1"
proof -
  let ?k = "id_prop P it"
  from inv have ok: "entries_ok P m w" and df: "distinct frag"
    and sub: "set frag \<subseteq> (\<lambda>(k, mi). child mi) ` set m"
    by (simp_all add: place_inv_def)
  have keys: "keys_of P [(it, i)] = [?k]" by (simp add: keys_of_def)
  show ?thesis
  proof (cases "map_of m ?k")
    case (Some mi)
    from entries_ok_mem [OF ok Some] have mem: "(?k, mi) \<in> set m"
      and ch: "child mi = out (mkChild P (item mi) (index mi) (scope mi))" by simp_all
    from fresh_widget [OF fr, of "item mi" "index mi" "scope mi"] ch
    obtain a where wa: "child mi = Widget a" by auto
    have kin: "?k \<in> fst ` set m" using mem by force
    let ?w1 = "sig_set (index mi) (SetValue (Num (int i))) w"
    obtain ns where ns: "log ?w1 = log w @ map Notified ns" using sig_set_spec(1) by blast
    show ?thesis
    proof (cases "child mi \<in> set frag")
      case True
      let ?st1 = "(m, frag, emit [ConsoleWarn ?k] ?w1)"
      have eq: "place_item P cs (it, i) (m, frag, w) = Inr ?st1"
        using Some True by (simp add: place_item_def Let_def hasChild_iff)
      have pin: "?k \<in> placed m frag" using Some True by (auto simp: placed_def)
      have inv1: "place_inv P ?st1"
        using df sub entries_ok_mono [OF ok, of "emit [ConsoleWarn ?k] ?w1"]
        by (simp add: place_inv_def sig_set_spec)
      have post: "place_post P cs [(it, i)] (m, frag, w) ?st1"
      proof (rule place_postI [where new = "[]" and added = "[]"
              and ev = "map Notified ns @ [ConsoleWarn ?k]"])
        show "\<forall>(k', mi') \<in> set m.
                sig_get (index mi') (emit [ConsoleWarn ?k] ?w1)
                  = (if positions P k' [(it, i)] = [] then sig_get (index mi') w
                     else Num (int (last (positions P k' [(it, i)]))))"
          by (rule existing_sig_values [OF ok Some refl]) simp
      qed (use kin pin ns in \<open>simp_all add: keys sig_set_spec insert_absorb\<close>)
      from eq inv1 post show ?thesis by blast
    next
      case False
      let ?st1 = "(m, frag @ [child mi], emit [ChildAdded (child mi) (length frag)] ?w1)"
      have eq: "place_item P cs (it, i) (m, frag, w) = Inr ?st1"
        using Some False wa by (simp add: place_item_def Let_def hasChild_iff addChild_widget)
      have pnot: "?k \<notin> placed m frag" using Some False by (auto simp: placed_def)
      have inv1: "place_inv P ?st1"
        using df sub False mem entries_ok_mono [OF ok, of "emit [ChildAdded (child mi) (length frag)] ?w1"]
        by (force simp: place_inv_def sig_set_spec)
      have post: "place_post P cs [(it, i)] (m, frag, w) ?st1"
      proof (rule place_postI [where new = "[]" and added = "[child mi]"
              and ev = "map Notified ns @ [ChildAdded (child mi) (length frag)]"])
        show "\<forall>(k', mi') \<in> set m.
                sig_get (index mi') (emit [ChildAdded (child mi) (length frag)] ?w1)
                  = (if positions P k' [(it, i)] = [] then sig_get (index mi') w
                     else Num (int (last (positions P k' [(it, i)]))))"
          by (rule existing_sig_values [OF ok Some refl]) simp
        show "placed m (frag @ [child mi]) = placed m frag \<union> set (keys_of P [(it, i)])"
          by (simp add: placed_snoc_old [OF ok Some] keys)
      qed (use kin pnot ns Some in \<open>simp_all add: keys sig_set_spec child_of_def\<close>)
      from eq inv1 post show ?thesis by blast
    qed
  next
    case None
    let ?g = "nsigs w" and ?s = "nscopes w"
    let ?c = "out (mkChild P it ?g ?s)"
    let ?mi = "\<lparr>item = it, child = ?c, index = ?g, scope = ?s\<rparr>"
    from make_child_spec [of P cs it i w] obtain w3 ms where
      mk: "make_child P cs it i w = (?mi, w3)"
      and w3: "nscopes w3 = Suc ?s" "nsigs w3 = Suc ?g"
        "parent (scopes w3 ?s) = Some cs"
        "\<forall>s. s \<noteq> ?s \<longrightarrow> parent (scopes w3 s) = parent (scopes w s)"
        "currentValue (sigs w3 ?g) = Num (int i)"
        "\<forall>g. g \<noteq> ?g \<longrightarrow> currentValue (sigs w3 g) = currentValue (sigs w g)"
        "log w3 = log w @ RenderCalled it ?g ?s # map MountRan ms"
      by blast
    from fresh_widget [OF fr, of it ?g ?s] obtain a where wa: "?c = Widget a" by auto
    let ?w4 = "emit [ChildAdded ?c (length frag)] w3"
    let ?m1 = "m @ [(?k, ?mi)]"
    let ?st1 = "(?m1, frag @ [?c], ?w4)"
    have eq: "place_item P cs (it, i) (m, frag, w) = Inr ?st1"
      using None mk wa by (simp add: place_item_def Let_def addChild_widget)
    have w4: "nscopes ?w4 = Suc ?s" "nsigs ?w4 = Suc ?g" using w3 by simp_all
    note snoc = entries_ok_snoc [OF ok fr None w4, of it]
    have knot: "?k \<notin> fst ` set m" using None by (simp add: map_of_eq_None_iff)
    have pnot: "?k \<notin> placed m frag" using None by (simp add: placed_def)
    have cnot: "?c \<notin> set frag" using snoc(2) sub by blast
    have inv1: "place_inv P ?st1"
      using snoc(1) df sub cnot by (auto simp: place_inv_def)
    have mo: "map_of ?m1 ?k = Some ?mi" using None by (simp add: map_of_append map_add_def)
    have bounds: "\<And>k' mi'. (k', mi') \<in> set m \<Longrightarrow> index mi' < nsigs w \<and> k' \<noteq> ?k"
    proof -
      fix k' mi' assume a: "(k', mi') \<in> set m"
      from ok have d: "distinct (map fst m)" unfolding entries_ok_def by (elim conjE)
      from map_of_is_SomeI [OF d a] have s: "map_of m k' = Some mi'" .
      from entries_ok_mem [OF ok s] have "index mi' < nsigs w" by simp
      moreover from s None have "k' \<noteq> ?k" by auto
      ultimately show "index mi' < nsigs w \<and> k' \<noteq> ?k" by simp
    qed
    have post: "place_post P cs [(it, i)] (m, frag, w) ?st1"
    proof (rule place_postI [where new = "[(?k, ?mi)]" and added = "[?c]"
            and ev = "RenderCalled it ?g ?s # map MountRan ms @ [ChildAdded ?c (length frag)]"])
      show "placed ?m1 (frag @ [?c]) = placed m frag \<union> set (keys_of P [(it, i)])"
        using placed_snoc_new [OF ok None, of ?mi frag] snoc(2) by (simp add: keys)
      show "\<forall>(k', mi') \<in> set ?m1.
                sig_get (index mi') ?w4
                  = (if positions P k' [(it, i)] = [] then sig_get (index mi') w
                     else Num (int (last (positions P k' [(it, i)]))))"
      proof (clarify)
        fix k' mi' assume "(k', mi') \<in> set ?m1"
        then consider "(k', mi') \<in> set m" | "k' = ?k" "mi' = ?mi" by auto
        then show "sig_get (index mi') ?w4
                  = (if positions P k' [(it, i)] = [] then sig_get (index mi') w
                     else Num (int (last (positions P k' [(it, i)]))))"
        proof cases
          case 1
          from bounds [OF 1] have b: "index mi' \<noteq> nsigs w" "id_prop P it \<noteq> k'" by auto
          with w3(6) show ?thesis
            by (simp add: positions_single sig_get_def)
        next
          case 2
          then show ?thesis using w3(5) by (simp add: positions_single sig_get_def)
        qed
      qed
      show "map Some [?c] = map (child_of ?m1) (fresh_firsts (keys_of P [(it, i)]) (placed m frag))"
        using pnot mo by (simp add: keys child_of_def)
    qed (use knot pnot w3 in \<open>simp_all add: keys first_item_def render_of_def\<close>)
    from eq inv1 post show ?thesis by blast
  qed
qed

lemma fresh_firsts_single: "fresh_firsts [k] S = (if k \<in> S then [] else [k])"
  by simp

lemma fresh_firsts_Cons_split:
  "fresh_firsts (k # ks) S = fresh_firsts [k] S @ fresh_firsts ks (insert k S)"
  by (simp add: insert_absorb)

lemma repeats_Cons_split:
  "repeats (k # ks) S = repeats [k] S @ repeats ks (insert k S)"
  by (simp add: insert_absorb)

lemma fresh_firsts_set: "set (fresh_firsts ks S) = set ks - S"
  by (induction ks arbitrary: S) auto

lemma fresh_firsts_distinct: "distinct (fresh_firsts ks S)"
  by (induction ks arbitrary: S) (auto simp: fresh_firsts_set)

lemma positions_Cons: "positions P k (x # xs) = positions P k [x] @ positions P k xs"
  by (simp add: positions_def)

lemma positions_nonempty: "k \<in> set (keys_of P xs) \<Longrightarrow> positions P k xs \<noteq> []"
  by (auto simp: keys_of_def positions_def filter_empty_conv)

lemma keys_of_Cons: "keys_of P ((it, i) # xs) = id_prop P it # keys_of P xs"
  by (simp add: keys_of_def)

lemma first_item_Cons:
  "first_item P k ((it, i) # xs) = (if id_prop P it = k then Some it else first_item P k xs)"
  by (simp add: first_item_def)

lemma place_post_Nil: "place_post P cs [] (m, frag, w) (m, frag, w)"
  by (rule place_postI [where new = "[]" and added = "[]" and ev = "[]"])
     (simp_all add: keys_of_def positions_def)

lemma place_post_compose:
  assumes p1: "place_post P cs [(it, i)] (m, frag, w) (m1, frag1, w1)"
    and p2: "place_post P cs xs (m1, frag1, w1) (m', frag', w')"
    and inv1: "place_inv P (m1, frag1, w1)"
  shows "place_post P cs ((it, i) # xs) (m, frag, w) (m', frag', w')"
proof -
  let ?k = "id_prop P it"
  let ?F = "fst ` set m" and ?S = "placed m frag" and ?ks = "keys_of P xs"
  have keys1: "keys_of P [(it, i)] = [?k]" by (simp add: keys_of_def)
  from p1 obtain new1 added1 ev1 where a:
    "m1 = m @ new1" "map fst new1 = fresh_firsts [?k] ?F"
    "frag1 = frag @ added1" "map Some added1 = map (child_of m1) (fresh_firsts [?k] ?S)"
    "placed m1 frag1 = ?S \<union> {?k}"
    "nscopes w1 = nscopes w + length new1" "nsigs w1 = nsigs w + length new1"
    "\<forall>(k, mi) \<in> set new1. nscopes w \<le> scope mi \<and> nsigs w \<le> index mi
        \<and> parent (scopes w1 (scope mi)) = Some cs \<and> first_item P k [(it, i)] = Some (item mi)"
    "\<forall>s. s < nscopes w \<longrightarrow> parent (scopes w1 s) = parent (scopes w s)"
    "\<forall>(k, mi) \<in> set m1. sig_get (index mi) w1
        = (if positions P k [(it, i)] = [] then sig_get (index mi) w
           else Num (int (last (positions P k [(it, i)]))))"
    "log w1 = log w @ ev1"
    "filter is_scope_disposed ev1 = []" "filter is_teardown ev1 = []"
    "filter is_render ev1 = map (\<lambda>(k, mi). render_of mi) new1"
    "filter is_warn ev1 = map ConsoleWarn (repeats [?k] ?S)"
    "added_children ev1 = added1"
    unfolding place_post_def prod.case keys1 by (elim exE conjE) simp
  from p2 obtain new2 added2 ev2 where b:
    "m' = m1 @ new2" "map fst new2 = fresh_firsts ?ks (fst ` set m1)"
    "frag' = frag1 @ added2" "map Some added2 = map (child_of m') (fresh_firsts ?ks (placed m1 frag1))"
    "placed m' frag' = placed m1 frag1 \<union> set ?ks"
    "nscopes w' = nscopes w1 + length new2" "nsigs w' = nsigs w1 + length new2"
    "\<forall>(k, mi) \<in> set new2. nscopes w1 \<le> scope mi \<and> nsigs w1 \<le> index mi
        \<and> parent (scopes w' (scope mi)) = Some cs \<and> first_item P k xs = Some (item mi)"
    "\<forall>s. s < nscopes w1 \<longrightarrow> parent (scopes w' s) = parent (scopes w1 s)"
    "\<forall>(k, mi) \<in> set m'. sig_get (index mi) w'
        = (if positions P k xs = [] then sig_get (index mi) w1
           else Num (int (last (positions P k xs))))"
    "log w' = log w1 @ ev2"
    "filter is_scope_disposed ev2 = []" "filter is_teardown ev2 = []"
    "filter is_render ev2 = map (\<lambda>(k, mi). render_of mi) new2"
    "filter is_warn ev2 = map ConsoleWarn (repeats ?ks (placed m1 frag1))"
    "added_children ev2 = added2"
    unfolding place_post_def prod.case by (elim exE conjE) simp
  from inv1 have ok1: "entries_ok P m1 w1" by (simp add: place_inv_def)
  have F1: "fst ` set m1 = insert ?k ?F"
  proof -
    have "fst ` set m1 = ?F \<union> set (map fst new1)" using a(1) by (simp add: image_Un)
    then show ?thesis using a(2) by auto
  qed
  have S1: "placed m1 frag1 = insert ?k ?S" using a(5) by simp
  have kin: "\<exists>mi. map_of m1 ?k = Some mi"
  proof -
    have "?k \<in> placed m1 frag1" using S1 by simp
    then show ?thesis by (auto simp: placed_def)
  qed
  have keep: "map_of m' k = map_of m1 k" if "map_of m1 k = Some mi" for k mi
    using that b(1) by (simp add: map_of_append map_add_def)
  show ?thesis
  proof (rule place_postI [where new = "new1 @ new2" and added = "added1 @ added2"
          and ev = "ev1 @ ev2"])
    show "m' = m @ new1 @ new2" using a(1) b(1) by simp
    show "map fst (new1 @ new2) = fresh_firsts (keys_of P ((it, i) # xs)) ?F"
    proof -
      have "fresh_firsts (keys_of P ((it, i) # xs)) ?F
          = fresh_firsts [?k] ?F @ fresh_firsts ?ks (insert ?k ?F)"
        unfolding keys_of_Cons by (rule fresh_firsts_Cons_split)
      also have "\<dots> = map fst new1 @ map fst new2" using a(2) b(2) F1 by simp
      finally show ?thesis by simp
    qed
    show "frag' = frag @ added1 @ added2" using a(3) b(3) by simp
    show "map Some (added1 @ added2)
        = map (child_of m') (fresh_firsts (keys_of P ((it, i) # xs)) ?S)"
    proof -
      have "map (child_of m1) (fresh_firsts [?k] ?S) = map (child_of m') (fresh_firsts [?k] ?S)"
        using kin keep by (auto simp: child_of_def)
      moreover have "fresh_firsts (keys_of P ((it, i) # xs)) ?S
          = fresh_firsts [?k] ?S @ fresh_firsts ?ks (insert ?k ?S)"
        unfolding keys_of_Cons by (rule fresh_firsts_Cons_split)
      ultimately show ?thesis
        using a(4) b(4) S1 by (simp del: fresh_firsts.simps)
    qed
    show "placed m' frag' = ?S \<union> set (keys_of P ((it, i) # xs))"
      using b(5) S1 by (auto simp: keys_of_Cons)
    show "nscopes w' = nscopes w + length (new1 @ new2)" using a(6) b(6) by simp
    show "nsigs w' = nsigs w + length (new1 @ new2)" using a(7) b(7) by simp
    show "\<forall>(k, mi) \<in> set (new1 @ new2).
                nscopes w \<le> scope mi \<and> nsigs w \<le> index mi
                \<and> parent (scopes w' (scope mi)) = Some cs
                \<and> first_item P k ((it, i) # xs) = Some (item mi)"
    proof (clarify)
      fix k mi assume "(k, mi) \<in> set (new1 @ new2)"
      then consider "(k, mi) \<in> set new1" | "(k, mi) \<in> set new2" by auto
      then show "nscopes w \<le> scope mi \<and> nsigs w \<le> index mi
                \<and> parent (scopes w' (scope mi)) = Some cs
                \<and> first_item P k ((it, i) # xs) = Some (item mi)"
      proof cases
        case 1
        from bspec [OF a(8) 1] have x: "nscopes w \<le> scope mi" "nsigs w \<le> index mi"
          "parent (scopes w1 (scope mi)) = Some cs" "first_item P k [(it, i)] = Some (item mi)"
          by simp_all
        from 1 a(1) have "(k, mi) \<in> set m1" by simp
        with ok1 have "scope mi < nscopes w1" unfolding entries_ok_def by blast
        with b(9) x(3) have "parent (scopes w' (scope mi)) = Some cs" by simp
        moreover from x(4) have "first_item P k ((it, i) # xs) = Some (item mi)"
          by (simp add: first_item_Cons split: if_splits) (simp add: first_item_def)
        ultimately show ?thesis using x by simp
      next
        case 2
        from bspec [OF b(8) 2] have x: "nscopes w1 \<le> scope mi" "nsigs w1 \<le> index mi"
          "parent (scopes w' (scope mi)) = Some cs" "first_item P k xs = Some (item mi)"
          by simp_all
        from 2 have "k \<in> set (map fst new2)" by force
        with b(2) have "k \<notin> fst ` set m1" by (simp add: fresh_firsts_set)
        with F1 have "k \<noteq> ?k" by auto
        with x(4) have "first_item P k ((it, i) # xs) = Some (item mi)"
          by (simp add: first_item_Cons)
        then show ?thesis using x a(6) a(7) by simp
      qed
    qed
    show "\<forall>s. s < nscopes w \<longrightarrow> parent (scopes w' s) = parent (scopes w s)"
      using a(6) a(9) b(9) by simp
    show "\<forall>(k, mi) \<in> set m'.
                sig_get (index mi) w'
                  = (if positions P k ((it, i) # xs) = [] then sig_get (index mi) w
                     else Num (int (last (positions P k ((it, i) # xs)))))"
    proof (clarify)
      fix k mi assume mem: "(k, mi) \<in> set m'"
      from bspec [OF b(10) mem] have v: "sig_get (index mi) w'
        = (if positions P k xs = [] then sig_get (index mi) w1
           else Num (int (last (positions P k xs))))" by simp
      show "sig_get (index mi) w'
                  = (if positions P k ((it, i) # xs) = [] then sig_get (index mi) w
                     else Num (int (last (positions P k ((it, i) # xs)))))"
      proof (cases "positions P k xs = []")
        case False
        with v show ?thesis by (simp add: positions_Cons [of P k "(it, i)" xs])
      next
        case True
        have "(k, mi) \<notin> set new2"
        proof
          assume "(k, mi) \<in> set new2"
          then have "k \<in> set (map fst new2)" by force
          with b(2) have "k \<in> set ?ks" by (simp add: fresh_firsts_set)
          from positions_nonempty [OF this] True show False by simp
        qed
        with mem b(1) have "(k, mi) \<in> set m1" by simp
        from bspec [OF a(10) this] v True show ?thesis
          by (simp add: positions_Cons [of P k "(it, i)" xs])
      qed
    qed
    show "log w' = log w @ ev1 @ ev2" using a(11) b(11) by simp
    show "filter is_scope_disposed (ev1 @ ev2) = []" using a(12) b(12) by simp
    show "filter is_teardown (ev1 @ ev2) = []" using a(13) b(13) by simp
    show "filter is_render (ev1 @ ev2) = map (\<lambda>(k, mi). render_of mi) (new1 @ new2)"
      using a(14) b(14) by simp
    show "filter is_warn (ev1 @ ev2) = map ConsoleWarn (repeats (keys_of P ((it, i) # xs)) ?S)"
    proof -
      have "repeats (keys_of P ((it, i) # xs)) ?S = repeats [?k] ?S @ repeats ?ks (insert ?k ?S)"
        unfolding keys_of_Cons by (rule repeats_Cons_split)
      then show ?thesis using a(15) b(15) S1 by (simp del: repeats.simps)
    qed
    show "added_children (ev1 @ ev2) = added1 @ added2" using a(16) b(16) by simp
  qed
qed

lemma place_spec:
  assumes fr: "fresh_outputs P"
  shows "place_inv P st \<Longrightarrow>
     \<exists>st'. place P cs its st = Inr st' \<and> place_inv P st' \<and> place_post P cs its st st'"
proof (induction its arbitrary: st)
  case Nil
  obtain m frag w where st: "st = (m, frag, w)" by (cases st)
  show ?case using Nil by (simp add: st place_post_Nil)
next
  case (Cons x xs)
  obtain m frag w where st: "st = (m, frag, w)" by (cases st)
  obtain it i where x: "x = (it, i)" by (cases x)
  from place_item_step [OF fr Cons.prems [unfolded st], of cs it i] obtain st1 where
    s1: "place_item P cs (it, i) (m, frag, w) = Inr st1" "place_inv P st1"
        "place_post P cs [(it, i)] (m, frag, w) st1" by blast
  obtain m1 frag1 w1 where st1: "st1 = (m1, frag1, w1)" by (cases st1)
  from Cons.IH [OF s1(2)] obtain st' where
    s2: "place P cs xs st1 = Inr st'" "place_inv P st'" "place_post P cs xs st1 st'" by blast
  obtain m' frag' w' where st': "st' = (m', frag', w')" by (cases st')
  from place_post_compose [OF s1(3) [unfolded st1] s2(3) [unfolded st1 st'] s1(2) [unfolded st1]]
  have "place_post P cs (x # xs) st st'" by (simp add: st st' x)
  moreover have "place P cs (x # xs) st = Inr st'" using s1(1) s2(1) by (simp add: st x)
  ultimately show ?case using s2(2) by blast
qed

lemma map_key_zip:
  "length js = length xs \<Longrightarrow> map (\<lambda>(it, i). f it) (zip xs js) = map f xs"
  by (induction xs arbitrary: js) (auto simp: length_Suc_conv)

lemma keys_of_zip: "keys_of P (zip items [0..<length items]) = map (id_prop P) items"
  unfolding keys_of_def by (rule map_key_zip) simp

lemma added_children_filter: "filter is_added ev = [] \<Longrightarrow> added_children ev = []"
  by (induction ev rule: added_children.induct) auto

lemma entries_ok_filter:
  assumes ok: "entries_ok P m w" and w: "nscopes w' = nscopes w" "nsigs w' = nsigs w"
  shows "entries_ok P (filter Q m) w'"
proof -
  from ok have d: "distinct (map fst m)" "distinct (map (\<lambda>(k, mi). child mi) m)"
    "distinct (map (\<lambda>(k, mi). scope mi) m)" "distinct (map (\<lambda>(k, mi). index mi) m)"
    and b: "\<forall>(k, mi) \<in> set m. scope mi < nscopes w \<and> index mi < nsigs w
      \<and> child mi = out (mkChild P (item mi) (index mi) (scope mi))"
    unfolding entries_ok_def by blast+
  have "distinct (map fst (filter Q m))" "distinct (map (\<lambda>(k, mi). child mi) (filter Q m))"
    "distinct (map (\<lambda>(k, mi). scope mi) (filter Q m))"
    "distinct (map (\<lambda>(k, mi). index mi) (filter Q m))"
    using d by (simp_all add: distinct_map_filter)
  moreover have "\<forall>(k, mi) \<in> set (filter Q m). scope mi < nscopes w' \<and> index mi < nsigs w'
      \<and> child mi = out (mkChild P (item mi) (index mi) (scope mi))"
    using b w by auto
  ultimately show ?thesis unfolding entries_ok_def by blast
qed

lemma For_pass_spec:
  fixes items :: "val list"
  assumes inv: "For_inv P st w" and fr: "fresh_outputs P"
  defines "ids \<equiv> map (id_prop P) items"
  defines "its \<equiv> zip items [0..<length items]"
  shows "\<exists>new frag' w' ev.
      For_callback P items st w
        = Inr (st\<lparr>tracked := kept ids (tracked st) @ new, fragment := frag'\<rparr>, w')
    \<and> For_inv P (st\<lparr>tracked := kept ids (tracked st) @ new, fragment := frag'\<rparr>) w'
    \<and> map fst new = fresh_firsts ids (fst ` set (kept ids (tracked st)))
    \<and> map Some frag' = map (child_of (kept ids (tracked st) @ new)) (firsts ids)
    \<and> nscopes w' = nscopes w + length new \<and> nsigs w' = nsigs w + length new
    \<and> (\<forall>(k, mi) \<in> set new.
          nscopes w \<le> scope mi \<and> nsigs w \<le> index mi
          \<and> parent (scopes w' (scope mi)) = Some (currentScope st)
          \<and> first_item P k its = Some (item mi))
    \<and> (\<forall>(k, mi) \<in> set (kept ids (tracked st) @ new).
          sig_get (index mi) w' = Num (int (last (positions P k its))))
    \<and> log w' = log w @ ev
    \<and> filter is_scope_disposed ev = map (\<lambda>mi. ScopeDisposed (scope mi)) (removed ids (tracked st))
    \<and> filter is_teardown ev = concat (map (teardown_of (cleanup P) w) (removed ids (tracked st)))
    \<and> filter is_render ev = map (\<lambda>(k, mi). render_of mi) new
    \<and> filter is_warn ev = map ConsoleWarn (repeats ids {})
    \<and> added_children ev = frag'"
proof -
  let ?m = "tracked st" and ?frag = "fragment st"
  from inv have ok: "entries_ok P ?m w" and df: "distinct ?frag"
    and sf: "set ?frag = (\<lambda>(k, mi). child mi) ` set ?m"
    by (simp_all add: For_inv_def)
  from ok have dc: "distinct (map (\<lambda>(k, mi). child mi) ?m)"
    unfolding entries_ok_def by (elim conjE)
  from sweep_spec [OF df _ dc, of "cleanup P" ids w] sf obtain w1 ev1 where
    sw: "sweep (cleanup P) ids ?m ?frag w
           = (kept ids ?m, filter (\<lambda>c. c \<notin> (\<lambda>(k, mi). child mi) ` set ?m) ?frag, w1)"
    and w1: "nscopes w1 = nscopes w" "sigs w1 = sigs w" "nsigs w1 = nsigs w"
    and l1: "log w1 = log w @ ev1"
      "filter is_scope_disposed ev1 = map (\<lambda>mi. ScopeDisposed (scope mi)) (removed ids ?m)"
      "filter is_teardown ev1 = concat (map (teardown_of (cleanup P) w) (removed ids ?m))"
      "filter is_render ev1 = []" "filter is_warn ev1 = []" "filter is_added ev1 = []"
    unfolding kept_def by auto
  have fe: "filter (\<lambda>c. c \<notin> (\<lambda>(k, mi). child mi) ` set ?m) ?frag = []"
    using sf by (simp add: filter_empty_conv)
  have ok1: "entries_ok P (kept ids ?m) w1"
    unfolding kept_def by (rule entries_ok_filter [OF ok w1(1) w1(3)])
  have pinv: "place_inv P (kept ids ?m, [], w1)"
    using ok1 by (simp add: place_inv_def)
  from place_spec [OF fr pinv, of "currentScope st" its] obtain st' where
    pl: "place P (currentScope st) its (kept ids ?m, [], w1) = Inr st'"
    and pinv': "place_inv P st'"
    and post: "place_post P (currentScope st) its (kept ids ?m, [], w1) st'" by blast
  obtain m' frag' w' where st': "st' = (m', frag', w')" by (cases st')
  have keys: "keys_of P its = ids" by (simp add: its_def ids_def keys_of_zip)
  have pl0: "placed (kept ids ?m) [] = {}" by (simp add: placed_def)
  from post obtain new added ev2 where b:
    "m' = kept ids ?m @ new" "map fst new = fresh_firsts ids (fst ` set (kept ids ?m))"
    "frag' = added" "map Some added = map (child_of m') (fresh_firsts ids {})"
    "placed m' frag' = set ids"
    "nscopes w' = nscopes w1 + length new" "nsigs w' = nsigs w1 + length new"
    "\<forall>(k, mi) \<in> set new. nscopes w1 \<le> scope mi \<and> nsigs w1 \<le> index mi
        \<and> parent (scopes w' (scope mi)) = Some (currentScope st)
        \<and> first_item P k its = Some (item mi)"
    "\<forall>(k, mi) \<in> set m'. sig_get (index mi) w'
        = (if positions P k its = [] then sig_get (index mi) w1
           else Num (int (last (positions P k its))))"
    "log w' = log w1 @ ev2"
    "filter is_scope_disposed ev2 = []" "filter is_teardown ev2 = []"
    "filter is_render ev2 = map (\<lambda>(k, mi). render_of mi) new"
    "filter is_warn ev2 = map ConsoleWarn (repeats ids {})"
    "added_children ev2 = added"
    unfolding place_post_def st' prod.case keys pl0 by (elim exE conjE) simp
  from pinv' have ok': "entries_ok P m' w'" and df': "distinct frag'"
    and sub': "set frag' \<subseteq> (\<lambda>(k, mi). child mi) ` set m'"
    by (simp_all add: place_inv_def st')
  have allin: "k \<in> set ids" if "(k, mi) \<in> set m'" for k mi
  proof -
    from that b(1) consider "(k, mi) \<in> set (kept ids ?m)" | "(k, mi) \<in> set new" by auto
    then show ?thesis
    proof cases
      case 1
      then show ?thesis by (simp add: kept_def)
    next
      case 2
      then have "k \<in> set (map fst new)" by force
      with b(2) show ?thesis by (simp add: fresh_firsts_set)
    qed
  qed
  have sup': "(\<lambda>(k, mi). child mi) ` set m' \<subseteq> set frag'"
  proof
    fix c assume "c \<in> (\<lambda>(k, mi). child mi) ` set m'"
    then obtain k mi where km: "(k, mi) \<in> set m'" "c = child mi" by auto
    from allin [OF km(1)] b(5) have "k \<in> placed m' frag'" by simp
    then obtain mi' where mi': "map_of m' k = Some mi'" "child mi' \<in> set frag'"
      by (auto simp: placed_def)
    from entries_key_unique [OF ok' mi'(1) km(1)] mi'(2) km(2) show "c \<in> set frag'" by simp
  qed
  have inv': "For_inv P (st\<lparr>tracked := m', fragment := frag'\<rparr>) w'"
    using ok' df' sub' sup' by (simp add: For_inv_def)
  have sigv: "\<forall>(k, mi) \<in> set m'. sig_get (index mi) w' = Num (int (last (positions P k its)))"
  proof (clarify)
    fix k mi assume km: "(k, mi) \<in> set m'"
    from allin [OF km] keys have "k \<in> set (keys_of P its)" by simp
    from positions_nonempty [OF this] bspec [OF b(9) km]
    show "sig_get (index mi) w' = Num (int (last (positions P k its)))" by simp
  qed
  have eq: "For_callback P items st w = Inr (st\<lparr>tracked := m', fragment := frag'\<rparr>, w')"
    using sw fe pl by (simp add: For_callback_def Let_def ids_def its_def st')
  show ?thesis
    apply (rule exI [of _ new])
    apply (rule exI [of _ frag'])
    apply (rule exI [of _ w'])
    apply (rule exI [of _ "ev1 @ ev2"])
    using eq inv' b sigv l1 w1 added_children_filter [OF l1(6)]
    by (simp add: firsts_def)
qed

subsection \<open>Counting in the trace of a pass\<close>

lemma count_list_filter: "Q x \<Longrightarrow> count_list (filter Q xs) x = count_list xs x"
  by (induction xs) auto

lemma count_list_map_inj: "inj f \<Longrightarrow> count_list (map f xs) (f y) = count_list xs y"
  by (induction xs) (auto dest: injD)

lemma count_list_distinct: "distinct xs \<Longrightarrow> count_list xs y = (if y \<in> set xs then 1 else 0)"
  by (induction xs) auto

lemma count_disposed:
  assumes "filter is_scope_disposed ev = map (\<lambda>mi. ScopeDisposed (scope mi)) rs"
    and "distinct (map scope rs)"
  shows "count_list ev (ScopeDisposed s) = (if s \<in> scope ` set rs then 1 else 0)"
proof -
  have "count_list ev (ScopeDisposed s) = count_list (filter is_scope_disposed ev) (ScopeDisposed s)"
    by (simp add: count_list_filter)
  also have "\<dots> = count_list (map ScopeDisposed (map scope rs)) (ScopeDisposed s)"
    using assms(1) by (simp add: comp_def)
  also have "\<dots> = count_list (map scope rs) s"
    by (rule count_list_map_inj) (simp add: inj_def)
  finally show ?thesis using assms(2) by (simp add: count_list_distinct)
qed

lemma filter_sub: "(\<And>x. Q x \<Longrightarrow> R x) \<Longrightarrow> filter Q xs = filter Q (filter R xs)"
  by (induction xs) auto

lemma teardown_for_of:
  "filter (teardown_for c) (teardown_of cl w r) = (if child r = c then teardown_of cl w r else [])"
  by (cases cl) auto

lemma teardown_for_concat:
  "filter (teardown_for c) (concat (map (teardown_of cl w) rs))
     = concat (map (teardown_of cl w) (filter (\<lambda>r. child r = c) rs))"
  by (induction rs) (auto simp: teardown_for_of)

lemma filter_inj_single:
  "distinct (map f rs) \<Longrightarrow> r \<in> set rs \<Longrightarrow> filter (\<lambda>x. f x = f r) rs = [r]"
proof (induction rs)
  case Nil
  then show ?case by simp
next
  case (Cons a rs)
  show ?case
  proof (cases "a = r")
    case True
    with Cons.prems(1) have "f r \<notin> f ` set rs" by simp
    then have "\<forall>x \<in> set rs. f x \<noteq> f r" by (metis image_eqI)
    then have "filter (\<lambda>x. f x = f r) rs = []" by (simp add: filter_empty_conv)
    with True show ?thesis by simp
  next
    case False
    with Cons.prems have "r \<in> set rs" "f a \<noteq> f r" by auto
    with Cons.IH Cons.prems(1) show ?thesis by simp
  qed
qed

lemma filter_none: "c \<notin> f ` set rs \<Longrightarrow> filter (\<lambda>x. f x = c) rs = []"
  by (auto simp: filter_empty_conv)

lemma render_in_map:
  "filter (render_in s) (map (\<lambda>(k, mi). render_of mi) new)
     = map (\<lambda>(k, mi). render_of mi) (filter (\<lambda>(k, mi). scope mi = s) new)"
  by (induction new) (auto simp: render_of_def)

lemma find_zip:
  "length js = length xs \<Longrightarrow> map_option fst (find (\<lambda>(it, i). Q it) (zip xs js)) = find Q xs"
  by (induction xs arbitrary: js) (auto simp: length_Suc_conv)

lemma first_item_zip:
  "first_item P k (zip items [0..<length items]) = find (\<lambda>it. id_prop P it = k) items"
  unfolding first_item_def by (rule find_zip) simp

lemma positions_zip:
  "length js = length xs \<Longrightarrow>
     map snd (filter (\<lambda>(it, i). f it = k) (zip xs js))
       = map snd (filter (\<lambda>(k', i). k' = k) (zip (map f xs) js))"
  by (induction xs arbitrary: js) (auto simp: length_Suc_conv)

lemma last_pos_positions:
  "last (positions P k (zip items [0..<length items])) = last_pos k (map (id_prop P) items)"
proof -
  have "map snd (filter (\<lambda>(it, i). id_prop P it = k) (zip items [0..<length items]))
      = map snd (filter (\<lambda>(k', i). k' = k) (zip (map (id_prop P) items) [0..<length items]))"
    by (rule positions_zip) simp
  then show ?thesis unfolding positions_def last_pos_def by (simp only: length_map)
qed

lemma removed_mem:
  "(k, mi) \<in> set m \<Longrightarrow> k \<notin> set ids \<Longrightarrow> mi \<in> set (removed ids m)"
  by (force simp: removed_def)

lemma entries_ok_distinct:
  assumes "entries_ok P m w"
  shows "distinct (map fst m)" "distinct (map (\<lambda>(k, mi). child mi) m)"
    "distinct (map (\<lambda>(k, mi). scope mi) m)" "distinct (map (\<lambda>(k, mi). index mi) m)"
  using assms unfolding entries_ok_def by blast+

lemma removed_distinct:
  assumes "entries_ok P m w"
  shows "distinct (map scope (removed ids m))" "distinct (map child (removed ids m))"
proof -
  have "map scope (removed ids m) = map (\<lambda>(k, mi). scope mi) (filter (\<lambda>(k, mi). k \<notin> set ids) m)"
    "map child (removed ids m) = map (\<lambda>(k, mi). child mi) (filter (\<lambda>(k, mi). k \<notin> set ids) m)"
    by (simp_all add: removed_def case_prod_beta comp_def)
  then show "distinct (map scope (removed ids m))" "distinct (map child (removed ids m))"
    using entries_ok_distinct [OF assms] by (simp_all add: distinct_map_filter)
qed

lemma entries_scope_inj:
  "entries_ok P m w \<Longrightarrow> (k, mi) \<in> set m \<Longrightarrow> (k', mi') \<in> set m \<Longrightarrow> scope mi = scope mi'
     \<Longrightarrow> k = k' \<and> mi = mi'"
proof -
  assume a: "entries_ok P m w" "(k, mi) \<in> set m" "(k', mi') \<in> set m" "scope mi = scope mi'"
  have "inj_on (\<lambda>(k, mi). scope mi) (set m)"
    using entries_ok_distinct(3) [OF a(1)] by (simp add: distinct_map)
  from inj_onD [OF this _ a(2,3)] a(4) show ?thesis by auto
qed

lemma removed_not_kept:
  assumes ok: "entries_ok P m w" and mem: "(k, mi) \<in> set m" and kin: "k \<in> set ids"
  shows "scope mi \<notin> scope ` set (removed ids m)" "child mi \<notin> child ` set (removed ids m)"
proof -
  show "scope mi \<notin> scope ` set (removed ids m)"
  proof
    assume "scope mi \<in> scope ` set (removed ids m)"
    then obtain k' mi' where r: "(k', mi') \<in> set m" "k' \<notin> set ids" "scope mi' = scope mi"
      by (force simp: removed_def)
    from entries_scope_inj [OF ok mem r(1)] r(3) have "k = k'" by simp
    with kin r(2) show False by simp
  qed
  show "child mi \<notin> child ` set (removed ids m)"
  proof
    assume "child mi \<in> child ` set (removed ids m)"
    then obtain k' mi' where r: "(k', mi') \<in> set m" "k' \<notin> set ids" "child mi' = child mi"
      by (force simp: removed_def)
    from entries_child_inj [OF ok mem r(1)] r(3) have "k = k'" by simp
    with kin r(2) show False by simp
  qed
qed

lemma teardown_for_is: "teardown_for c e \<Longrightarrow> is_teardown e"
  by (cases e) auto

lemma render_in_is: "render_in s e \<Longrightarrow> is_render e"
  by (cases e) auto

lemma repeats_count:
  "count_list (repeats ks S) k = (if k \<in> S then count_list ks k else count_list ks k - 1)"
proof (induction ks arbitrary: S)
  case Nil
  then show ?case by simp
next
  case (Cons a ks)
  show ?case
  proof (cases "a \<in> S")
    case True
    then show ?thesis using Cons.IH [of S] by auto
  next
    case False
    then show ?thesis using Cons.IH [of "insert a S"] by auto
  qed
qed

lemma render_for_is: "render_for P k e \<Longrightarrow> is_render e"
  by (cases e) auto

lemma render_for_map:
  "filter (render_for P k) (map (\<lambda>(k, mi). render_of mi) new)
     = map (\<lambda>(k, mi). render_of mi) (filter (\<lambda>(k', mi). id_prop P (item mi) = k) new)"
  by (induction new) (auto simp: render_of_def)

lemma first_item_key: "first_item P k its = Some it \<Longrightarrow> id_prop P it = k"
  by (auto simp: first_item_def find_Some_iff)

lemma count_warn:
  assumes "filter is_warn ev = map ConsoleWarn rs"
  shows "count_list ev (ConsoleWarn k) = count_list rs k"
proof -
  have "count_list ev (ConsoleWarn k) = count_list (filter is_warn ev) (ConsoleWarn k)"
    by (simp add: count_list_filter)
  also have "\<dots> = count_list rs k"
    unfolding assms by (rule count_list_map_inj) (simp add: inj_def)
  finally show ?thesis .
qed

subsection \<open>The container in the trace of a pass\<close>

lemma mount_trace_append [simp]: "mount_trace (es @ fs) = mount_trace es @ mount_trace fs"
  by (induction es rule: mount_trace.induct) simp_all

lemma mount_trace_silent [simp]:
  "mount_trace (map MountRan xs) = []" "mount_trace (map Notified xs) = []"
  "mount_trace (map CleanupRan xs) = []"
  by (induction xs) simp_all

lemma For_remove_mount:
  "\<exists>ev. log (For_remove cl mi w) = log w @ ev \<and> mount_trace ev = []"
  by (cases cl) (simp_all add: For_remove_def)

lemma sweep_mount_trace:
  "\<exists>ev. log (snd (snd (sweep cl ids m frag w))) = log w @ ev
     \<and> mount_trace ev = map (\<lambda>(k, mi). (child mi, None)) m"
proof (induction m arbitrary: frag w)
  case Nil
  then show ?case by simp
next
  case (Cons e m)
  obtain key mi where e: "e = (key, mi)" by (cases e)
  let ?frag1 = "splice1 (findIndex (child mi) frag) frag"
  let ?w1 = "emit [ChildRemoved (child mi) (findIndex (child mi) frag)] w"
  show ?case
  proof (cases "key \<in> set ids")
    case True
    from Cons.IH [of ?frag1 ?w1] obtain ev where
      ev: "log (snd (snd (sweep cl ids m ?frag1 ?w1))) = log ?w1 @ ev"
        "mount_trace ev = map (\<lambda>(k, mi). (child mi, None)) m" by blast
    have "snd (snd (sweep cl ids (e # m) frag w)) = snd (snd (sweep cl ids m ?frag1 ?w1))"
      using True e by (simp add: removeChild_def Let_def split: prod.splits)
    with ev e show ?thesis
      by (intro exI [of _ "ChildRemoved (child mi) (findIndex (child mi) frag) # ev"]) simp
  next
    case False
    from For_remove_mount [of cl mi ?w1] obtain evr where
      evr: "log (For_remove cl mi ?w1) = log ?w1 @ evr" "mount_trace evr = []" by blast
    from Cons.IH [of ?frag1 "For_remove cl mi ?w1"] obtain ev where
      ev: "log (snd (snd (sweep cl ids m ?frag1 (For_remove cl mi ?w1))))
             = log (For_remove cl mi ?w1) @ ev"
        "mount_trace ev = map (\<lambda>(k, mi). (child mi, None)) m" by blast
    have "snd (snd (sweep cl ids (e # m) frag w))
        = snd (snd (sweep cl ids m ?frag1 (For_remove cl mi ?w1)))"
      using False e by (simp add: removeChild_def Let_def)
    with ev evr e show ?thesis
      by (intro exI [of _ "ChildRemoved (child mi) (findIndex (child mi) frag) # evr @ ev"]) simp
  qed
qed

lemma addChild_end:
  "addChild c (- 1) frag = Inr (frag1, ev) \<Longrightarrow> frag1 = frag @ [c] \<and> ev = [ChildAdded c (length frag)]"
  by (cases c) (auto simp: addChild_def)

lemma place_item_mount:
  assumes "place_item P cs (it, i) (m, frag, w) = Inr (m', frag', w')"
  shows "\<exists>ev added. log w' = log w @ ev \<and> frag' = frag @ added
     \<and> mount_trace ev = map (\<lambda>(c, n). (c, Some n)) (zip added [length frag..<length frag + length added])"
proof (cases "map_of m (id_prop P it)")
  case (Some mi)
  let ?w1 = "sig_set (index mi) (SetValue (Num (int i))) w"
  from sig_set_spec(1) [of "index mi" "SetValue (Num (int i))" w] obtain ns where
    ns: "log ?w1 = log w @ map Notified ns" by blast
  show ?thesis
  proof (cases "hasChild (child mi) frag")
    case True
    with assms Some have "frag' = frag" "w' = emit [ConsoleWarn (id_prop P it)] ?w1"
      by (simp_all add: place_item_def Let_def)
    with ns show ?thesis
      by (intro exI [of _ "map Notified ns @ [ConsoleWarn (id_prop P it)]"] exI [of _ "[]"]) simp
  next
    case False
    have pe: "place_item P cs (it, i) (m, frag, w)
        = (case addChild (child mi) (- 1) frag of
             Inl e \<Rightarrow> Inl e
           | Inr (frag1, ev) \<Rightarrow> Inr (m, frag1, emit ev ?w1))"
      using Some False by (simp add: place_item_def Let_def)
    obtain frag1 ev where
      a: "addChild (child mi) (- 1) frag = Inr (frag1, ev)" "frag' = frag1" "w' = emit ev ?w1"
    proof (cases "addChild (child mi) (- 1) frag")
      case (Inl e)
      with pe assms show ?thesis by simp
    next
      case (Inr r)
      obtain f1 e1 where "r = (f1, e1)" by (cases r)
      with Inr pe assms that show ?thesis by simp
    qed
    from addChild_end [OF a(1)] a ns show ?thesis
      by (intro exI [of _ "map Notified ns @ [ChildAdded (child mi) (length frag)]"]
          exI [of _ "[child mi]"]) simp
  qed
next
  case None
  from make_child_spec [of P cs it i w] obtain w3 ms mi where
    mk: "make_child P cs it i w = (mi, w3)"
      "log w3 = log w @ RenderCalled it (nsigs w) (nscopes w) # map MountRan ms" by blast
  have pe: "place_item P cs (it, i) (m, frag, w)
      = (case addChild (child mi) (- 1) frag of
           Inl e \<Rightarrow> Inl e
         | Inr (frag1, ev) \<Rightarrow> Inr (m @ [(id_prop P it, mi)], frag1, emit ev w3))"
    using None mk(1) by (simp add: place_item_def Let_def)
  obtain frag1 ev where
    a: "addChild (child mi) (- 1) frag = Inr (frag1, ev)" "frag' = frag1" "w' = emit ev w3"
  proof (cases "addChild (child mi) (- 1) frag")
    case (Inl e)
    with pe assms show ?thesis by simp
  next
    case (Inr r)
    obtain f1 e1 where "r = (f1, e1)" by (cases r)
    with Inr pe assms that show ?thesis by simp
  qed
  from addChild_end [OF a(1)] a mk(2) show ?thesis
    by (intro exI [of _ "RenderCalled it (nsigs w) (nscopes w) # map MountRan ms
            @ [ChildAdded (child mi) (length frag)]"]
        exI [of _ "[child mi]"]) simp
qed

lemma zip_upt_append:
  "zip (xs @ ys) [n..<n + (length xs + length ys)]
     = zip xs [n..<n + length xs] @ zip ys [n + length xs..<n + length xs + length ys]"
proof -
  have "[n..<n + length xs + length ys] = [n..<n + length xs] @ [n + length xs..<n + length xs + length ys]"
    by (rule upt_add_eq_append) simp
  then have "[n..<n + (length xs + length ys)] = [n..<n + length xs] @ [n + length xs..<n + length xs + length ys]"
    by (simp only: add.assoc)
  then show ?thesis by (simp only: zip_append length_upt add_diff_cancel_left' simp_thms)
qed

lemma place_mount:
  "place P cs its (m, frag, w) = Inr (m', frag', w') \<Longrightarrow>
     \<exists>ev added. log w' = log w @ ev \<and> frag' = frag @ added
       \<and> mount_trace ev = map (\<lambda>(c, n). (c, Some n)) (zip added [length frag..<length frag + length added])"
proof (induction its arbitrary: m frag w)
  case Nil
  then show ?case by (intro exI [of _ "[]"]) simp
next
  case (Cons x its)
  obtain it i where x: "x = (it, i)" by (cases x)
  obtain m1 frag1 w1 where
    s: "place_item P cs (it, i) (m, frag, w) = Inr (m1, frag1, w1)"
    and r: "place P cs its (m1, frag1, w1) = Inr (m', frag', w')"
  proof (cases "place_item P cs (it, i) (m, frag, w)")
    case (Inl e)
    with Cons.prems x show ?thesis by simp
  next
    case (Inr st1)
    obtain a b c where "st1 = (a, b, c)" by (cases st1)
    with Inr Cons.prems x that show ?thesis by simp
  qed
  from place_item_mount [OF s] obtain ev1 a1 where
    1: "log w1 = log w @ ev1" "frag1 = frag @ a1"
      "mount_trace ev1 = map (\<lambda>(c, n). (c, Some n)) (zip a1 [length frag..<length frag + length a1])"
    by blast
  from Cons.IH [OF r] obtain ev2 a2 where
    2: "log w' = log w1 @ ev2" "frag' = frag1 @ a2"
      "mount_trace ev2 = map (\<lambda>(c, n). (c, Some n)) (zip a2 [length frag1..<length frag1 + length a2])"
    by blast
  have "mount_trace (ev1 @ ev2)
      = map (\<lambda>(c, n). (c, Some n)) (zip a1 [length frag..<length frag + length a1])
        @ map (\<lambda>(c, n). (c, Some n)) (zip a2 [length frag + length a1..<length frag + length a1 + length a2])"
    using 1(2,3) 2(3) by (simp only: mount_trace_append length_append)
  also have "\<dots> = map (\<lambda>(c, n). (c, Some n)) (zip (a1 @ a2) [length frag..<length frag + length (a1 @ a2)])"
    by (simp only: zip_upt_append length_append map_append)
  finally have "mount_trace (ev1 @ ev2)
      = map (\<lambda>(c, n). (c, Some n)) (zip (a1 @ a2) [length frag..<length frag + length (a1 @ a2)])" .
  with 1 2 show ?case
    by (intro exI [of _ "ev1 @ ev2"] exI [of _ "a1 @ a2"]) simp
qed

lemma For_pass_mount_trace:
  fixes items :: "val list"
  assumes inv: "For_inv P st w" and eq: "For_callback P items st w = Inr (st', w')"
  shows "\<exists>ev. log w' = log w @ ev
     \<and> mount_trace ev = map (\<lambda>(k, mi). (child mi, None)) (tracked st)
         @ map (\<lambda>(c, n). (c, Some n)) (zip (fragment st') [0..<length (fragment st')])"
proof -
  let ?m = "tracked st" and ?frag = "fragment st" and ?ids = "map (id_prop P) items"
  from inv have ok: "entries_ok P ?m w" and df: "distinct ?frag"
    and sf: "set ?frag = (\<lambda>(k, mi). child mi) ` set ?m"
    by (simp_all add: For_inv_def)
  from ok have dc: "distinct (map (\<lambda>(k, mi). child mi) ?m)"
    unfolding entries_ok_def by (elim conjE)
  from sweep_spec [OF df _ dc, of "cleanup P" ?ids w] sf obtain w1 where
    sw: "sweep (cleanup P) ?ids ?m ?frag w
           = (filter (\<lambda>(k, mi). k \<in> set ?ids) ?m,
              filter (\<lambda>c. c \<notin> (\<lambda>(k, mi). child mi) ` set ?m) ?frag, w1)"
    by auto
  have fe: "filter (\<lambda>c. c \<notin> (\<lambda>(k, mi). child mi) ` set ?m) ?frag = []"
    using sf by (simp add: filter_empty_conv)
  from sweep_mount_trace [of "cleanup P" ?ids ?m ?frag w] sw obtain ev1 where
    1: "log w1 = log w @ ev1" "mount_trace ev1 = map (\<lambda>(k, mi). (child mi, None)) ?m"
    by auto
  let ?pl = "place P (currentScope st) (zip items [0..<length items])
           (filter (\<lambda>(k, mi). k \<in> set ?ids) ?m, [], w1)"
  have ce: "For_callback P items st w
      = (case ?pl of Inl e \<Rightarrow> Inl e
         | Inr (m2, frag2, w2) \<Rightarrow> Inr (st\<lparr>tracked := m2, fragment := frag2\<rparr>, w2))"
    by (simp add: For_callback_def Let_def sw fe)
  obtain m2 where pl: "?pl = Inr (m2, fragment st', w')"
  proof (cases ?pl)
    case (Inl e)
    with ce eq show ?thesis by simp
  next
    case (Inr r)
    obtain a b c where "r = (a, b, c)" by (cases r)
    with Inr ce eq that show ?thesis by auto
  qed
  from place_mount [OF pl] obtain ev2 where
    2: "log w' = log w1 @ ev2"
      "mount_trace ev2 = map (\<lambda>(c, n). (c, Some n)) (zip (fragment st') [0..<length (fragment st')])"
    by auto
  from 1 2 show ?thesis by (intro exI [of _ "ev1 @ ev2"]) simp
qed

lemma fresh_firsts_cong:
  "(\<And>k. k \<in> set ks \<Longrightarrow> (k \<in> S) = (k \<in> T)) \<Longrightarrow> fresh_firsts ks S = fresh_firsts ks T"
proof (induction ks arbitrary: S T)
  case Nil
  then show ?case by simp
next
  case (Cons a ks)
  have a: "(a \<in> S) = (a \<in> T)" using Cons.prems [of a] by simp
  show ?case
  proof (cases "a \<in> S")
    case True
    with a Cons.IH [of S T] Cons.prems show ?thesis by simp
  next
    case False
    have "fresh_firsts ks (insert a S) = fresh_firsts ks (insert a T)"
      by (rule Cons.IH) (use Cons.prems in auto)
    with False a show ?thesis by simp
  qed
qed

lemma onCleanup_sizes [simp]:
  "nscopes (onCleanup cb w) = nscopes w" "nsigs (onCleanup cb w) = nsigs w"
  by (simp_all add: onCleanup_def Scope_onCleanup_def upd_scope_def emit_def split: option.splits)

lemma For_init_inv:
  fixes items :: "val list"
  assumes fr: "fresh_outputs P" and cur: "current w = Some cs"
  shows "\<exists>st' w'. For_init P items sub cl w = Inr (st', w') \<and> For_inv P st' w'
     \<and> currentScope st' = cs"
proof -
  let ?st0 = "\<lparr>currentScope = cs, tracked = [], fragment = []\<rparr>"
  let ?w0 = "emit [SourceSubscribed sub] w"
  have "For_inv P ?st0 ?w0" by (simp add: For_inv_def entries_ok_def)
  from For_pass_spec [OF this fr, of items] obtain new frag' w1 where
    1: "For_callback P items ?st0 ?w0
          = Inr (?st0\<lparr>tracked := kept (map (id_prop P) items) (tracked ?st0) @ new, fragment := frag'\<rparr>, w1)"
       "For_inv P (?st0\<lparr>tracked := kept (map (id_prop P) items) (tracked ?st0) @ new, fragment := frag'\<rparr>) w1"
    by blast
  from 1(2) have "For_inv P (?st0\<lparr>tracked := kept (map (id_prop P) items) (tracked ?st0) @ new, fragment := frag'\<rparr>)
      (onCleanup cl w1)"
    by (simp add: For_inv_def entries_ok_def)
  with 1(1) cur show ?thesis by (simp add: For_init_def getScope_def)
qed

subsection \<open>One pass, key by key\<close>

text \<open>
  Claim C1, as the source has it. Take a reconciler in a state that its construction
  or a pass leaves (\<open>For_inv\<close>; see \<open>For_init_inv\<close> and the third conjunct below),
  and a render function that returns a new output, not a fragment, on every call. A
  pass over any items returns and writes \<open>ev\<close> to the trace. The map then holds the
  old entries whose keys are in the input, unchanged and in their old order, followed
  by the entries \<open>new\<close>, one for each key of the input that was not tracked, in the
  order of their first occurrences. As many scopes and signals were allocated as there
  are new entries. In the whole of \<open>ev\<close>:
  \<^item> the scopes disposed are those of the entries that were dropped, each once;
  \<^item> the teardown calls are those \<open>remove\<close> makes for the dropped entries: the
    \<open>cleanup\<close> function on output, item and index if one was given, the default
    teardown if \<open>cleanup\<close> was left out, and none if \<open>cleanup\<close> is \<open>null\<close>;
  \<^item> the calls of the render function are those that made the new entries, one
    each, under the entry's scope and with its index signal;
  \<^item> the container is changed as follows: the output of every old entry is
    unmounted, and then the outputs that the container holds in the end are mounted
    one after the other, each at the end of what was there (the \<open>n\<close>-th at position
    \<open>n\<close>).

  Key by key:
  \<^item> a tracked key that is not among the new keys is dropped from the map, its scope
    is disposed exactly once, and the teardown calls on its output are those of
    \<open>remove\<close>;
  \<^item> a tracked key that is among the new keys keeps its entry; its scope is not
    disposed, its output is not torn down, the render function is not called in its
    scope, and its index signal holds the last position of the key in the input;
  \<^item> a key of the input that was not tracked gets an entry with a scope and an index
    signal allocated in this pass, the scope's parent being the reconciler's scope; its
    item is the first item with that key, its output is what the render function
    returned for it, the render function was called once in that scope, and the index
    signal holds the last position of the key;
  \<^item> the container holds, in the order of the first occurrences of the keys in the
    input, the outputs of their entries.
\<close>

theorem For_pass_reconciles:
  fixes items :: "val list"
  assumes inv: "For_inv P st w" and fr: "fresh_outputs P"
  shows "\<exists>st' w' ev new.
      For_callback P items st w = Inr (st', w') \<and> log w' = log w @ ev \<and> For_inv P st' w'
    \<and> currentScope st' = currentScope st
    \<and> tracked st' = kept (map (id_prop P) items) (tracked st) @ new
    \<and> map fst new = fresh_firsts (map (id_prop P) items) (fst ` set (tracked st))
    \<and> nscopes w' = nscopes w + length new \<and> nsigs w' = nsigs w + length new
    \<and> filter is_scope_disposed ev
          = map (\<lambda>mi. ScopeDisposed (scope mi)) (removed (map (id_prop P) items) (tracked st))
    \<and> filter is_teardown ev
          = concat (map (teardown_of (cleanup P) w) (removed (map (id_prop P) items) (tracked st)))
    \<and> filter is_render ev = map (\<lambda>(k, mi). render_of mi) new
    \<and> mount_trace ev
          = map (\<lambda>(k, mi). (child mi, None)) (tracked st)
            @ map (\<lambda>(c, n). (c, Some n)) (zip (fragment st') [0..<length (fragment st')])
    \<and> (\<forall>(k, mi) \<in> set (tracked st). k \<notin> set (map (id_prop P) items) \<longrightarrow>
          map_of (tracked st') k = None
        \<and> count_list ev (ScopeDisposed (scope mi)) = 1
        \<and> filter (teardown_for (child mi)) ev = teardown_of (cleanup P) w mi)
    \<and> (\<forall>(k, mi) \<in> set (tracked st). k \<in> set (map (id_prop P) items) \<longrightarrow>
          map_of (tracked st') k = Some mi
        \<and> count_list ev (ScopeDisposed (scope mi)) = 0
        \<and> filter (teardown_for (child mi)) ev = []
        \<and> filter (render_in (scope mi)) ev = []
        \<and> sig_get (index mi) w' = Num (int (last_pos k (map (id_prop P) items))))
    \<and> (\<forall>k \<in> set (map (id_prop P) items). map_of (tracked st) k = None \<longrightarrow>
          (\<exists>mi. map_of (tracked st') k = Some mi
             \<and> nscopes w \<le> scope mi \<and> scope mi < nscopes w'
             \<and> nsigs w \<le> index mi \<and> index mi < nsigs w'
             \<and> parent (scopes w' (scope mi)) = Some (currentScope st)
             \<and> find (\<lambda>it. id_prop P it = k) items = Some (item mi)
             \<and> child mi = out (mkChild P (item mi) (index mi) (scope mi))
             \<and> filter (render_in (scope mi)) ev = [RenderCalled (item mi) (index mi) (scope mi)]
             \<and> sig_get (index mi) w' = Num (int (last_pos k (map (id_prop P) items)))))
    \<and> map Some (fragment st') = map (child_of (tracked st')) (firsts (map (id_prop P) items))"
proof -
  let ?ids = "map (id_prop P) items" and ?its = "zip items [0..<length items]"
  let ?m = "tracked st" and ?kp = "kept (map (id_prop P) items) (tracked st)"
  let ?rm = "removed (map (id_prop P) items) (tracked st)"
  from For_pass_spec [OF inv fr, of items] obtain new frag' w' ev where
    eq: "For_callback P items st w = Inr (st\<lparr>tracked := ?kp @ new, fragment := frag'\<rparr>, w')"
    and inv': "For_inv P (st\<lparr>tracked := ?kp @ new, fragment := frag'\<rparr>) w'"
    and keysn: "map fst new = fresh_firsts ?ids (fst ` set ?kp)"
    and fragv: "map Some frag' = map (child_of (?kp @ new)) (firsts ?ids)"
    and cnt: "nscopes w' = nscopes w + length new" "nsigs w' = nsigs w + length new"
    and newp: "\<forall>(k, mi) \<in> set new. nscopes w \<le> scope mi \<and> nsigs w \<le> index mi
          \<and> parent (scopes w' (scope mi)) = Some (currentScope st)
          \<and> first_item P k ?its = Some (item mi)"
    and sigv: "\<forall>(k, mi) \<in> set (?kp @ new).
          sig_get (index mi) w' = Num (int (last (positions P k ?its)))"
    and lg: "log w' = log w @ ev"
    and fd: "filter is_scope_disposed ev = map (\<lambda>mi. ScopeDisposed (scope mi)) ?rm"
    and ft: "filter is_teardown ev = concat (map (teardown_of (cleanup P) w) ?rm)"
    and frn: "filter is_render ev = map (\<lambda>(k, mi). render_of mi) new"
    by blast
  let ?m' = "?kp @ new"
  from inv have ok: "entries_ok P ?m w" by (simp add: For_inv_def)
  from inv' have ok': "entries_ok P ?m' w'" by (simp add: For_inv_def)
  note d' = entries_ok_distinct [OF ok']
  have keys_kp: "fst ` set ?kp = fst ` set ?m \<inter> set ?ids" by (force simp: kept_def)
  have keys_new: "set (map fst new) = set ?ids - fst ` set ?kp"
    using keysn by (simp add: fresh_firsts_set)
  have "fresh_firsts ?ids (fst ` set ?kp) = fresh_firsts ?ids (fst ` set ?m)"
    by (rule fresh_firsts_cong) (simp add: keys_kp)
  with keysn have keysm: "map fst new = fresh_firsts ?ids (fst ` set ?m)" by simp
  from For_pass_mount_trace [OF inv eq] lg
  have mt: "mount_trace ev
      = map (\<lambda>(k, mi). (child mi, None)) ?m
        @ map (\<lambda>(c, n). (c, Some n)) (zip frag' [0..<length frag'])" by auto
  have tf: "filter (teardown_for c) ev
      = concat (map (teardown_of (cleanup P) w) (filter (\<lambda>r. child r = c) ?rm))" for c
  proof -
    have "filter (teardown_for c) ev = filter (teardown_for c) (filter is_teardown ev)"
      by (rule filter_sub) (rule teardown_for_is)
    then show ?thesis by (simp only: ft teardown_for_concat)
  qed
  have rf: "filter (render_in s) ev
      = map (\<lambda>(k, mi). render_of mi) (filter (\<lambda>(k, mi). scope mi = s) new)" for s
  proof -
    have "filter (render_in s) ev = filter (render_in s) (filter is_render ev)"
      by (rule filter_sub) (rule render_in_is)
    then show ?thesis by (simp only: frn render_in_map)
  qed
  have val: "sig_get (index mi) w' = Num (int (last_pos k ?ids))" if "(k, mi) \<in> set ?m'" for k mi
    using bspec [OF sigv that] by (simp add: last_pos_positions)
  have c1: "\<forall>(k, mi) \<in> set ?m. k \<notin> set ?ids \<longrightarrow>
          map_of ?m' k = None
        \<and> count_list ev (ScopeDisposed (scope mi)) = 1
        \<and> filter (teardown_for (child mi)) ev = teardown_of (cleanup P) w mi"
  proof (clarify)
    fix k mi assume mem: "(k, mi) \<in> set ?m" and out: "k \<notin> set ?ids"
    have "k \<notin> fst ` set ?m'" using out keys_kp keys_new by (auto simp: image_Un)
    then have 1: "map_of ?m' k = None" by (simp add: map_of_eq_None_iff image_Un)
    from removed_mem [OF mem out] have r: "mi \<in> set ?rm" .
    have 2: "count_list ev (ScopeDisposed (scope mi)) = 1"
      using count_disposed [OF fd removed_distinct(1) [OF ok], of "scope mi"] r by simp
    have "filter (\<lambda>r. child r = child mi) ?rm = [mi]"
      by (rule filter_inj_single [OF removed_distinct(2) [OF ok] r])
    then have 3: "filter (teardown_for (child mi)) ev = teardown_of (cleanup P) w mi"
      by (simp add: tf)
    from 1 2 3 show "map_of ?m' k = None
        \<and> count_list ev (ScopeDisposed (scope mi)) = 1
        \<and> filter (teardown_for (child mi)) ev = teardown_of (cleanup P) w mi" by simp
  qed
  have c2: "\<forall>(k, mi) \<in> set ?m. k \<in> set ?ids \<longrightarrow>
          map_of ?m' k = Some mi
        \<and> count_list ev (ScopeDisposed (scope mi)) = 0
        \<and> filter (teardown_for (child mi)) ev = []
        \<and> filter (render_in (scope mi)) ev = []
        \<and> sig_get (index mi) w' = Num (int (last_pos k ?ids))"
  proof (clarify)
    fix k mi assume mem: "(k, mi) \<in> set ?m" and kin: "k \<in> set ?ids"
    from mem kin have mem': "(k, mi) \<in> set ?m'" by (simp add: kept_def)
    from map_of_is_SomeI [OF d'(1) mem'] have 1: "map_of ?m' k = Some mi" .
    note nk = removed_not_kept [OF ok mem kin]
    have 2: "count_list ev (ScopeDisposed (scope mi)) = 0"
      using count_disposed [OF fd removed_distinct(1) [OF ok], of "scope mi"] nk(1) by simp
    have "filter (\<lambda>r. child r = child mi) ?rm = []" by (rule filter_none [OF nk(2)])
    then have 3: "filter (teardown_for (child mi)) ev = []" by (simp add: tf)
    from ok mem have lt: "scope mi < nscopes w" unfolding entries_ok_def by blast
    have "\<forall>x \<in> set new. \<not> (case x of (k, mi') \<Rightarrow> scope mi' = scope mi)"
      using newp lt by fastforce
    then have "filter (\<lambda>(k, mi'). scope mi' = scope mi) new = []"
      by (simp only: filter_empty_conv) 
    then have 4: "filter (render_in (scope mi)) ev = []" by (simp add: rf)
    from 1 2 3 4 val [OF mem']
    show "map_of ?m' k = Some mi
        \<and> count_list ev (ScopeDisposed (scope mi)) = 0
        \<and> filter (teardown_for (child mi)) ev = []
        \<and> filter (render_in (scope mi)) ev = []
        \<and> sig_get (index mi) w' = Num (int (last_pos k ?ids))" by simp
  qed
  have c3: "\<forall>k \<in> set ?ids. map_of ?m k = None \<longrightarrow>
          (\<exists>mi. map_of ?m' k = Some mi
             \<and> nscopes w \<le> scope mi \<and> scope mi < nscopes w'
             \<and> nsigs w \<le> index mi \<and> index mi < nsigs w'
             \<and> parent (scopes w' (scope mi)) = Some (currentScope st)
             \<and> find (\<lambda>it. id_prop P it = k) items = Some (item mi)
             \<and> child mi = out (mkChild P (item mi) (index mi) (scope mi))
             \<and> filter (render_in (scope mi)) ev = [RenderCalled (item mi) (index mi) (scope mi)]
             \<and> sig_get (index mi) w' = Num (int (last_pos k ?ids)))"
  proof (intro ballI impI)
    fix k assume kin: "k \<in> set ?ids" and none: "map_of ?m k = None"
    from none have "k \<notin> fst ` set ?m" by (simp add: map_of_eq_None_iff)
    with keys_kp have "k \<notin> fst ` set ?kp" by simp
    with kin keys_new have "k \<in> set (map fst new)" by simp
    then obtain mi where n: "(k, mi) \<in> set new" by auto
    then have mem': "(k, mi) \<in> set ?m'" by simp
    from map_of_is_SomeI [OF d'(1) mem'] have 1: "map_of ?m' k = Some mi" .
    from bspec [OF newp n] have b: "nscopes w \<le> scope mi" "nsigs w \<le> index mi"
      "parent (scopes w' (scope mi)) = Some (currentScope st)"
      "first_item P k ?its = Some (item mi)" by simp_all
    from entries_ok_mem [OF ok' 1] have e: "scope mi < nscopes w'" "index mi < nsigs w'"
      "child mi = out (mkChild P (item mi) (index mi) (scope mi))" by simp_all
    from b(4) have f: "find (\<lambda>it. id_prop P it = k) items = Some (item mi)"
      by (simp only: first_item_zip)
    have dn: "distinct (map (\<lambda>(k, mi). scope mi) new)" using d'(3) by simp
    have "filter (\<lambda>x. (\<lambda>(k, mi). scope mi) x = (\<lambda>(k, mi). scope mi) (k, mi)) new = [(k, mi)]"
      by (rule filter_inj_single [OF dn n])
    moreover have "filter (\<lambda>(k', mi'). scope mi' = scope mi) new
        = filter (\<lambda>x. (\<lambda>(k, mi). scope mi) x = (\<lambda>(k, mi). scope mi) (k, mi)) new"
      by (rule filter_cong) auto
    ultimately have "filter (\<lambda>(k', mi'). scope mi' = scope mi) new = [(k, mi)]"
      by simp
    then have r: "filter (render_in (scope mi)) ev = [RenderCalled (item mi) (index mi) (scope mi)]"
      by (simp add: rf render_of_def)
    from 1 b e f r val [OF mem']
    show "\<exists>mi. map_of ?m' k = Some mi
             \<and> nscopes w \<le> scope mi \<and> scope mi < nscopes w'
             \<and> nsigs w \<le> index mi \<and> index mi < nsigs w'
             \<and> parent (scopes w' (scope mi)) = Some (currentScope st)
             \<and> find (\<lambda>it. id_prop P it = k) items = Some (item mi)
             \<and> child mi = out (mkChild P (item mi) (index mi) (scope mi))
             \<and> filter (render_in (scope mi)) ev = [RenderCalled (item mi) (index mi) (scope mi)]
             \<and> sig_get (index mi) w' = Num (int (last_pos k ?ids))" by blast
  qed
  show ?thesis
    apply (rule exI [of _ "st\<lparr>tracked := ?m', fragment := frag'\<rparr>"])
    apply (rule exI [of _ w'])
    apply (rule exI [of _ ev])
    apply (rule exI [of _ new])
    using eq lg inv' c1 c2 c3 fragv keysm cnt fd ft frn mt by simp
qed

subsection \<open>The running example\<close>

lemmas for_eval = For_init_def For_callback_def getScope_def place_item_def make_child_def
  createState_def new_Scope_def Scope_run_def render_body_def fire_mounts_def emit_def upd_scope_def
  onCleanup_def Scope_onCleanup_def set_add_def Scope_dispose_def addChild_def removeChild_def
  splice1_def hasChild_def For_remove_def sig_set_def st_set_def sig_get_def Let_def
  labels_def root_world_def empty_world_def empty_scope_def

lemma trio_tracked:
  "tracked (fst (trio cl))
     = [(Num 1, \<lparr>item = Num 1, child = Widget 1, index = 0, scope = 1\<rparr>),
        (Num 2, \<lparr>item = Num 2, child = Widget 2, index = 1, scope = 2\<rparr>),
        (Num 3, \<lparr>item = Num 3, child = Widget 3, index = 2, scope = 3\<rparr>)]"
  "fragment (fst (trio cl)) = [Widget 1, Widget 2, Widget 3]"
  "currentScope (fst (trio cl)) = 0"
  "nscopes (snd (trio cl)) = 4" "nsigs (snd (trio cl)) = 3"
  "log (snd (trio cl))
     = [SourceSubscribed 20,
        RenderCalled (Num 1) 0 1, ChildAdded (Widget 1) 0,
        RenderCalled (Num 2) 1 2, ChildAdded (Widget 2) 1,
        RenderCalled (Num 3) 2 3, ChildAdded (Widget 3) 2]"
  "cleanups (scopes (snd (trio cl)) 2) = [102]"
  "cleanups (scopes (snd (trio cl)) 0) = [21]"
  "sig_get 0 (snd (trio cl)) = Num 0" "sig_get 2 (snd (trio cl)) = Num 2"
  by (simp_all add: trio_def for_eval)

lemma trio_inv: "For_inv (labels cl) (fst (trio cl)) (snd (trio cl))"
  by (simp add: For_inv_def entries_ok_def trio_tracked) (simp add: labels_def)

lemma labels_fresh: "fresh_outputs (labels cl)"
  by (simp add: fresh_outputs_def labels_def)

lemmas more_eval = nested_def shared_def no_entries_def

text \<open>
  The cleanup that \<open>For\<close> registered with its owner (closure 21), run on the running
  example: it unsubscribes from the source, tears down and disposes the three entries
  in the order of the map, and empties the map; the fragment keeps its children.
\<close>

lemma trio_cleanup:
  "(case For_cleanup (labels CleanupUndefined) 20 (fst (trio CleanupUndefined)) (snd (trio CleanupUndefined)) of
      (st', w') \<Rightarrow>
        tracked st' = [] \<and> fragment st' = [Widget 1, Widget 2, Widget 3]
        \<and> drop 7 (log w')
            = [SourceUnsubscribed 20,
               DefaultCleanup (Widget 1), ScopeDisposed 1, CleanupRan 101,
               DefaultCleanup (Widget 2), ScopeDisposed 2, CleanupRan 102,
               DefaultCleanup (Widget 3), ScopeDisposed 3, CleanupRan 103])"
  by (simp add: trio_def for_eval For_cleanup_def)

text \<open>
  The pass \<open>[3, 1]\<close> on the running example, with \<open>cleanup\<close> left out: key 2 is
  dropped with one default teardown and one disposal, the entries of 1 and 3 stay
  without a render call and without a new scope, their index signals become 1 and 0,
  and the three outputs are unmounted before the outputs of 3 and 1 are mounted at
  the positions 0 and 1.
\<close>

theorem For_pass_reconciles_witness:
  "For_inv (labels CleanupUndefined) (fst (trio CleanupUndefined)) (snd (trio CleanupUndefined))
   \<and> fresh_outputs (labels CleanupUndefined)
   \<and> (case For_callback (labels CleanupUndefined) [Num 3, Num 1]
             (fst (trio CleanupUndefined)) (snd (trio CleanupUndefined)) of
        Inl e \<Rightarrow> False
      | Inr (st', w') \<Rightarrow>
          map fst (tracked st') = [Num 1, Num 3]
          \<and> fragment st' = [Widget 3, Widget 1]
          \<and> count_list (log w') (ScopeDisposed 2) = 1
          \<and> filter is_teardown (log w') = [DefaultCleanup (Widget 2)]
          \<and> filter is_render (drop 7 (log w')) = []
          \<and> mount_trace (drop 7 (log w'))
               = [(Widget 1, None), (Widget 2, None), (Widget 3, None),
                  (Widget 3, Some 0), (Widget 1, Some 1)]
          \<and> nscopes w' = 4
          \<and> sig_get 0 w' = Num 1 \<and> sig_get 2 w' = Num 0)"
  using For_pass_reconciles [OF trio_inv labels_fresh, of CleanupUndefined "[Num 3, Num 1]"]
    trio_inv [of CleanupUndefined] labels_fresh [of CleanupUndefined]
  by (simp add: trio_def for_eval kept_def removed_def render_of_def)

text \<open>
  Claim C1 as worded does not hold of every pass.
  \<^item> It says that every dropped key has its teardown invoked. With \<open>cleanup = null\<close>
    the function \<open>remove\<close> calls neither \<open>cleanup\<close> nor the default teardown: in the
    pass \<open>[3, 1]\<close> on the running example key 2 is dropped and its scope disposed (the
    cleanup it registered runs), and no teardown call is in the trace.
  \<^item> It says that the output of a new key is mounted. When the render function
    returns a fragment, \<open>addChild\<close> throws and the pass ends there.
  \<^item> It says that the output of a surviving key is mounted again. When the render
    function returns the same widget for two keys, the second pass over two surviving
    keys mounts that widget for the first of them, and for the second one it logs the
    warning about duplicate keys and mounts nothing.
\<close>

theorem For_pass_counterexamples:
  "(case For_callback (labels CleanupNull) [Num 3, Num 1] (fst (trio CleanupNull)) (snd (trio CleanupNull)) of
      Inl e \<Rightarrow> False
    | Inr (st', w') \<Rightarrow>
        map fst (tracked st') = [Num 1, Num 3] \<and> fragment st' = [Widget 3, Widget 1]
        \<and> filter is_scope_disposed (log w') = [ScopeDisposed 2]
        \<and> filter is_teardown (log w') = []
        \<and> filter (\<lambda>e. e = CleanupRan 102) (log w') = [CleanupRan 102])
   \<and> For_callback nested [Num 1] no_entries root_world = Inl NestedFragment
   \<and> (case For_callback shared [Num 1, Num 2] no_entries root_world of
        Inl e \<Rightarrow> False
      | Inr (st1, w1) \<Rightarrow>
          map fst (tracked st1) = [Num 1, Num 2] \<and> fragment st1 = [Widget 0, Widget 0]
          \<and> (case For_callback shared [Num 2, Num 1] st1 w1 of
                Inl e \<Rightarrow> False
              | Inr (st2, w2) \<Rightarrow>
                  map fst (tracked st2) = [Num 1, Num 2] \<and> fragment st2 = [Widget 0]
                  \<and> filter is_warn (log w2) = [ConsoleWarn (Num 1)]
                  \<and> mount_trace (drop (length (log w1)) (log w2))
                       = [(Widget 0, None), (Widget 0, None), (Widget 0, Some 0)]))"
  by (simp add: trio_def for_eval more_eval)

subsection \<open>Duplicate keys\<close>

text \<open>
  Claim C8, as the source has it. Under the same conditions (a state that the
  construction or a pass leaves, a render function that returns a new output, not a
  fragment, on every call), let a key \<open>k\<close> occur more than once among the keys of the
  input. The pass returns; it logs the warning for \<open>k\<close> once for every occurrence
  after the first (the warnings of the pass are those of the repeated occurrences of
  keys, in order); the map has exactly one entry for \<open>k\<close>, the output of that entry
  is mounted exactly once, and its index signal holds the position of the last
  occurrence of \<open>k\<close>. If \<open>k\<close> was not tracked before, the render function is called
  for \<open>k\<close> exactly once, on the first item with that key, in a scope created in this
  pass under the reconciler's scope. If \<open>k\<close> was tracked before, its entry is the one
  from before the pass and the render function is not called for \<open>k\<close> at all. A pass
  creates one scope for every render call and no other.
\<close>

theorem For_pass_duplicate_keys:
  fixes items :: "val list"
  assumes inv: "For_inv P st w" and fr: "fresh_outputs P"
    and dup: "1 < count_list (map (id_prop P) items) k"
  shows "\<exists>st' w' ev mi.
      For_callback P items st w = Inr (st', w') \<and> log w' = log w @ ev
    \<and> count_list ev (ConsoleWarn k) = count_list (map (id_prop P) items) k - 1
    \<and> map_of (tracked st') k = Some mi
    \<and> sig_get (index mi) w' = Num (int (last_pos k (map (id_prop P) items)))
    \<and> filter is_warn ev = map ConsoleWarn (repeats (map (id_prop P) items) {})
    \<and> length (filter (\<lambda>(k', mi'). k' = k) (tracked st')) = 1
    \<and> count_list (fragment st') (child mi) = 1
    \<and> count_list (added_children ev) (child mi) = 1
    \<and> nscopes w' = nscopes w + length (filter is_render ev)
    \<and> (case map_of (tracked st) k of
          None \<Rightarrow>
            filter (render_for P k) ev = [RenderCalled (item mi) (index mi) (scope mi)]
            \<and> find (\<lambda>it. id_prop P it = k) items = Some (item mi)
            \<and> nscopes w \<le> scope mi
            \<and> parent (scopes w' (scope mi)) = Some (currentScope st)
        | Some mi0 \<Rightarrow> mi = mi0 \<and> filter (render_for P k) ev = [])"
proof -
  let ?ids = "map (id_prop P) items" and ?its = "zip items [0..<length items]"
  let ?m = "tracked st" and ?kp = "kept (map (id_prop P) items) (tracked st)"
  from For_pass_spec [OF inv fr, of items] obtain new frag' w' ev where
    eq: "For_callback P items st w = Inr (st\<lparr>tracked := ?kp @ new, fragment := frag'\<rparr>, w')"
    and inv': "For_inv P (st\<lparr>tracked := ?kp @ new, fragment := frag'\<rparr>) w'"
    and keysn: "map fst new = fresh_firsts ?ids (fst ` set ?kp)"
    and cnt: "nscopes w' = nscopes w + length new"
    and newp: "\<forall>(k, mi) \<in> set new. nscopes w \<le> scope mi \<and> nsigs w \<le> index mi
          \<and> parent (scopes w' (scope mi)) = Some (currentScope st)
          \<and> first_item P k ?its = Some (item mi)"
    and sigv: "\<forall>(k, mi) \<in> set (?kp @ new).
          sig_get (index mi) w' = Num (int (last (positions P k ?its)))"
    and lg: "log w' = log w @ ev"
    and frn: "filter is_render ev = map (\<lambda>(k, mi). render_of mi) new"
    and fw: "filter is_warn ev = map ConsoleWarn (repeats ?ids {})"
    and ad: "added_children ev = frag'"
    by blast
  let ?m' = "?kp @ new"
  from inv have ok: "entries_ok P ?m w" by (simp add: For_inv_def)
  from inv' have ok': "entries_ok P ?m' w'" and df': "distinct frag'"
    and sf': "set frag' = (\<lambda>(k, mi). child mi) ` set ?m'" by (simp_all add: For_inv_def)
  note d = entries_ok_distinct [OF ok]
  note d' = entries_ok_distinct [OF ok']
  have keys_kp: "fst ` set ?kp = fst ` set ?m \<inter> set ?ids" by (force simp: kept_def)
  have keys_new: "set (map fst new) = set ?ids - fst ` set ?kp"
    using keysn by (simp add: fresh_firsts_set)
  from dup have kin: "k \<in> set ?ids" by (metis count_list_0_iff not_less_zero)
  have "k \<in> fst ` set ?m'"
  proof (cases "k \<in> fst ` set ?kp")
    case True
    then show ?thesis by (simp add: image_Un)
  next
    case False
    with kin keys_new have "k \<in> set (map fst new)" by simp
    then show ?thesis by (simp add: image_Un)
  qed
  then obtain x where x: "x \<in> set ?m'" "k = fst x" by (rule imageE)
  define mi where "mi = snd x"
  from x have mem': "(k, mi) \<in> set ?m'" unfolding mi_def by simp
  from map_of_is_SomeI [OF d'(1) mem'] have 1: "map_of ?m' k = Some mi" .
  have 6: "sig_get (index mi) w' = Num (int (last_pos k ?ids))"
    using bspec [OF sigv mem'] by (simp add: last_pos_positions)
  have w: "count_list ev (ConsoleWarn k) = count_list ?ids k - 1"
    using count_warn [OF fw, of k] by (simp add: repeats_count)
  have "filter (\<lambda>x. fst x = fst (k, mi)) ?m' = [(k, mi)]"
    by (rule filter_inj_single [OF d'(1) mem'])
  moreover have "filter (\<lambda>(k', mi'). k' = k) ?m' = filter (\<lambda>x. fst x = fst (k, mi)) ?m'"
    by (rule filter_cong) auto
  ultimately have 2: "length (filter (\<lambda>(k', mi'). k' = k) ?m') = 1" by simp
  have "child mi \<in> set frag'" using sf' mem' by force
  with df' have 3: "count_list frag' (child mi) = 1" by (simp add: count_list_distinct)
  have 4: "nscopes w' = nscopes w + length (filter is_render ev)" using cnt frn by simp
  have rf: "filter (render_for P k) ev
      = map (\<lambda>(k, mi). render_of mi) (filter (\<lambda>(k', mi). id_prop P (item mi) = k) new)"
  proof -
    have "filter (render_for P k) ev = filter (render_for P k) (filter is_render ev)"
      by (rule filter_sub) (rule render_for_is)
    then show ?thesis by (simp only: frn render_for_map)
  qed
  have rk: "filter (\<lambda>(k', mi). id_prop P (item mi) = k) new = filter (\<lambda>x. fst x = k) new"
  proof (rule filter_cong [OF refl])
    fix x assume x: "x \<in> set new"
    obtain k' mi' where xx: "x = (k', mi')" by (cases x)
    from bspec [OF newp x] xx have "first_item P k' ?its = Some (item mi')" by simp
    from first_item_key [OF this] xx
    show "(case x of (k', mi) \<Rightarrow> id_prop P (item mi) = k) = (fst x = k)" by simp
  qed
  have 5: "case map_of ?m k of
          None \<Rightarrow>
            filter (render_for P k) ev = [RenderCalled (item mi) (index mi) (scope mi)]
            \<and> find (\<lambda>it. id_prop P it = k) items = Some (item mi)
            \<and> nscopes w \<le> scope mi
            \<and> parent (scopes w' (scope mi)) = Some (currentScope st)
        | Some mi0 \<Rightarrow> mi = mi0 \<and> filter (render_for P k) ev = []"
  proof (cases "map_of ?m k")
    case None
    then have "k \<notin> fst ` set ?m" by (simp add: map_of_eq_None_iff)
    with keys_kp have nk: "k \<notin> fst ` set ?kp" by simp
    with mem' have n: "(k, mi) \<in> set new" by force
    from bspec [OF newp n] have b: "nscopes w \<le> scope mi"
      "parent (scopes w' (scope mi)) = Some (currentScope st)"
      "first_item P k ?its = Some (item mi)" by simp_all
    have dn: "distinct (map fst new)" using d'(1) by simp
    have "filter (\<lambda>x. fst x = fst (k, mi)) new = [(k, mi)]"
      by (rule filter_inj_single [OF dn n])
    then have "filter (render_for P k) ev = [RenderCalled (item mi) (index mi) (scope mi)]"
      by (simp add: rf rk render_of_def)
    moreover from b(3) have "find (\<lambda>it. id_prop P it = k) items = Some (item mi)"
      by (simp only: first_item_zip)
    ultimately show ?thesis using None b by simp
  next
    case (Some mi0)
    from entries_ok_mem [OF ok Some] have m0: "(k, mi0) \<in> set ?m" by simp
    with kin have "(k, mi0) \<in> set ?kp" by (simp add: kept_def)
    then have "(k, mi0) \<in> set ?m'" by simp
    from map_of_is_SomeI [OF d'(1) this] 1 have e: "mi = mi0" by simp
    from m0 kin keys_kp have "k \<in> fst ` set ?kp" by force
    with keys_new have "k \<notin> fst ` set new" by auto
    then have "filter (\<lambda>x. fst x = k) new = []" by (auto simp: filter_empty_conv)
    then have "filter (render_for P k) ev = []" by (simp add: rf rk)
    with e Some show ?thesis by simp
  qed
  show ?thesis
    apply (rule exI [of _ "st\<lparr>tracked := ?m', fragment := frag'\<rparr>"])
    apply (rule exI [of _ w'])
    apply (rule exI [of _ ev])
    apply (rule exI [of _ mi])
    using eq lg w 1 2 3 4 5 6 fw ad by simp
qed

text \<open>
  The pass \<open>[4, 1, 14, 24]\<close> on the running example, the keys being the last digits:
  key 4 is new and occurs three times, the last time at position 3.
\<close>

theorem For_pass_duplicate_keys_witness:
  "For_inv (labels CleanupUndefined) (fst (trio CleanupUndefined)) (snd (trio CleanupUndefined))
   \<and> fresh_outputs (labels CleanupUndefined)
   \<and> 1 < count_list (map (id_prop (labels CleanupUndefined)) [Num 4, Num 1, Num 14, Num 24]) (Num 4)
   \<and> (case For_callback (labels CleanupUndefined) [Num 4, Num 1, Num 14, Num 24]
             (fst (trio CleanupUndefined)) (snd (trio CleanupUndefined)) of
        Inl e \<Rightarrow> False
      | Inr (st', w') \<Rightarrow>
          map fst (tracked st') = [Num 1, Num 4]
          \<and> fragment st' = [Widget 4, Widget 1]
          \<and> filter is_warn (log w') = [ConsoleWarn (Num 4), ConsoleWarn (Num 4)]
          \<and> filter is_render (drop 7 (log w')) = [RenderCalled (Num 4) 3 4]
          \<and> nscopes w' = 5
          \<and> sig_get 3 w' = Num 3)"
  using For_pass_duplicate_keys [OF trio_inv labels_fresh, of CleanupUndefined "[Num 4, Num 1, Num 14, Num 24]" "Num 4"]
    trio_inv [of CleanupUndefined] labels_fresh [of CleanupUndefined]
  by (simp add: trio_def for_eval kept_def removed_def render_of_def)

text \<open>
  Claim C8 as worded does not hold of every pass with a duplicate key.
  \<^item> It says that one child scope is created for the key and that the first
    occurrence's entry survives. In the pass \<open>[11, 21]\<close> on the running example both
    items have the key 1, which is tracked: no scope is created and the render function
    is not called, the warning is logged, and the entry that survives is the one made
    for the item 1 in the first pass, not one for the item 11. Its index signal holds
    1, the position of the later duplicate.
  \<^item> It says that a warning is logged. When the render function returns a
    fragment, \<open>addChild\<close> throws at the first occurrence, before any warning.
  \<^item> It says that it is the later duplicate that is not mounted. When the render
    function returns the same widget for the keys 1 and 2, the pass \<open>[1, 2, 12]\<close>
    after the pass \<open>[1, 2]\<close> logs the warning for key 2 twice, the first time at the
    first occurrence of that key.
\<close>

theorem For_duplicates_counterexamples:
  "1 < count_list (map (id_prop (labels CleanupUndefined)) [Num 11, Num 21]) (Num 1)
   \<and> (case For_callback (labels CleanupUndefined) [Num 11, Num 21]
             (fst (trio CleanupUndefined)) (snd (trio CleanupUndefined)) of
        Inl e \<Rightarrow> False
      | Inr (st', w') \<Rightarrow>
          nscopes w' = nscopes (snd (trio CleanupUndefined))
          \<and> filter is_render (drop 7 (log w')) = []
          \<and> filter is_warn (log w') = [ConsoleWarn (Num 1)]
          \<and> tracked st' = [(Num 1, \<lparr>item = Num 1, child = Widget 1, index = 0, scope = 1\<rparr>)]
          \<and> fragment st' = [Widget 1]
          \<and> sig_get 0 w' = Num 1)
   \<and> 1 < count_list (map (id_prop nested) [Num 1, Num 11]) (Num 1)
   \<and> For_callback nested [Num 1, Num 11] no_entries root_world = Inl NestedFragment
   \<and> (case For_callback shared [Num 1, Num 2] no_entries root_world of
        Inl e \<Rightarrow> False
      | Inr (st1, w1) \<Rightarrow>
          1 < count_list (map (id_prop shared) [Num 1, Num 2, Num 12]) (Num 2)
          \<and> (case For_callback shared [Num 1, Num 2, Num 12] st1 w1 of
                Inl e \<Rightarrow> False
              | Inr (st2, w2) \<Rightarrow>
                  filter is_warn (log w2) = [ConsoleWarn (Num 2), ConsoleWarn (Num 2)]
                  \<and> fragment st2 = [Widget 0]))"
  by (simp add: trio_def for_eval more_eval)

end
